theory Spec2Isabelle
  imports Main "HOL-Library.Word"
begin

section \<open>Platform values: byte arrays, errors, number rendering\<close>

text \<open>
  A \<open>Uint8Array\<close> is the list of its bytes. An exception is a value of \<open>error\<close>: the
  library throws \<open>new Error(message)\<close>; the platform throws \<open>RangeError\<close> (a
  \<open>DataView\<close> access or \<open>TypedArray.set\<close> outside the array), \<open>TypeError\<close> (a
  fatal \<open>TextDecoder\<close> on malformed input) and \<open>SyntaxError\<close> (\<open>JSON.parse\<close>). The
  message texts of the platform's errors are those of V8; nothing below depends on them.
  \<open>IllTyped\<close> is not an exception of the program: it marks a call whose argument is outside
  the TypeScript signature of the function, where the model says nothing about the code.
\<close>

type_synonym byte = "8 word"
type_synonym u8array = "byte list"

datatype error =
    Error string
  | RangeError string
  | TypeError string
  | SyntaxError string
  | IllTyped

text \<open>The decimal rendering of a number inside a template literal (\<open>`${n}`\<close>).\<close>

function show_nat :: "nat \<Rightarrow> string" where
  "show_nat n =
     (if n < 10 then [''0123456789'' ! n]
      else show_nat (n div 10) @ [''0123456789'' ! (n mod 10)])"
  by pat_completeness auto
termination
  by (relation "measure id") auto

declare show_nat.simps [simp del]

text \<open>\<open>b.slice(o, e)\<close>: a fresh array holding the bytes from \<open>o\<close> up to \<open>e\<close>, both clamped
  to the length of \<open>b\<close>.\<close>

definition slice :: "u8array \<Rightarrow> nat \<Rightarrow> nat \<Rightarrow> u8array" where
  "slice b o1 e1 = take (e1 - o1) (drop o1 b)"

text \<open>\<open>b.set(src, o)\<close>: copies \<open>src\<close> into \<open>b\<close> from offset \<open>o\<close>; a \<open>RangeError\<close>, and
  nothing written, when \<open>src\<close> does not fit.\<close>

definition set_at :: "u8array \<Rightarrow> u8array \<Rightarrow> nat \<Rightarrow> error option \<times> u8array" where
  "set_at b src o1 =
     (if o1 + length src > length b then (Some (RangeError ''offset is out of bounds''), b)
      else (None, take o1 b @ src @ drop (o1 + length src) b))"

section \<open>Byte cursor: readers\<close>

text \<open>
  \<open>Cursor = { buf, pos }\<close>. A reader is the cursor together with its \<open>read\<close> method; the
  two constructors \<open>reader\<close> and \<open>checkedReader\<close> differ only in that method, so a reader
  value records which of the two built it. (\<open>checkedReader\<close> keeps the position in a
  closure variable and mirrors it into the \<open>pos\<close> field after every read; the model
  keeps the one position.) A reader is mutable and survives an exception, so every
  operation returns the reader it leaves behind, also when it throws.
\<close>

record cursor =
  buf :: u8array
  pos :: nat

datatype reader = Reader cursor | CheckedReader cursor

fun cursor_of :: "reader \<Rightarrow> cursor" where
  "cursor_of (Reader c) = c"
| "cursor_of (CheckedReader c) = c"

definition reader :: "u8array \<Rightarrow> nat \<Rightarrow> reader" where
  "reader b offset = Reader \<lparr>buf = b, pos = offset\<rparr>"

definition checkedReader :: "u8array \<Rightarrow> nat \<Rightarrow> reader" where
  "checkedReader b offset = CheckedReader \<lparr>buf = b, pos = offset\<rparr>"

type_synonym 'a rd = "reader \<Rightarrow> (error + 'a) \<times> reader"

text \<open>The callback of \<open>read\<close> receives the buffer, the offset and the end offset, and
  returns a result or throws.\<close>

type_synonym 'a read_fn = "u8array \<Rightarrow> nat \<Rightarrow> nat \<Rightarrow> error + 'a"

definition out_of_bounds :: "nat \<Rightarrow> nat \<Rightarrow> nat \<Rightarrow> error" where
  "out_of_bounds n p len =
     Error (''Out of bounds: need '' @ show_nat n @ '' at '' @ show_nat p @ '', len=''
            @ show_nat len)"

fun reader_read :: "nat \<Rightarrow> 'a read_fn \<Rightarrow> 'a rd" where
  "reader_read size1 fn (Reader c) =
     (case fn (buf c) (pos c) (pos c + size1) of
        Inl x \<Rightarrow> (Inl x, Reader c)
      | Inr t \<Rightarrow> (Inr t, Reader (c\<lparr>pos := pos c + size1\<rparr>)))"
| "reader_read size1 fn (CheckedReader c) =
     (if pos c + size1 > length (buf c)
      then (Inl (out_of_bounds size1 (pos c) (length (buf c))), CheckedReader c)
      else (case fn (buf c) (pos c) (pos c + size1) of
              Inl x \<Rightarrow> (Inl x, CheckedReader c)
            | Inr t \<Rightarrow> (Inr t, CheckedReader (c\<lparr>pos := pos c + size1\<rparr>))))"

section \<open>Byte cursor: writers\<close>

text \<open>
  \<open>writer(size)\<close> is the fixed writer: one zero-filled buffer of \<open>size\<close> bytes and a
  position. \<open>writer()\<close> is the growable writer: the list of chunks written so far and
  their total length. The method \<open>write\<close> is \<open>writer_write\<close> here and \<open>read\<close> is
  \<open>reader_read\<close>. The callback of \<open>write\<close> mutates the array it is handed, from the
  offset it is handed; it is modelled as the function from the array before to the array
  after, with the exception it throws, if any.
\<close>

datatype writer = FixedWriter u8array nat | GrowableWriter "u8array list" nat

type_synonym write_fn = "u8array \<Rightarrow> nat \<Rightarrow> error option \<times> u8array"
type_synonym wr = "writer \<Rightarrow> error option \<times> writer"

definition writer :: "nat option \<Rightarrow> writer" where
  "writer size1 =
     (case size1 of
        Some n \<Rightarrow> FixedWriter (replicate n 0) 0
      | None \<Rightarrow> GrowableWriter [] 0)"

fun writer_write :: "nat \<Rightarrow> write_fn \<Rightarrow> wr" where
  "writer_write size1 fn (FixedWriter b p) =
     (case fn b p of
        (Some x, b') \<Rightarrow> (Some x, FixedWriter b' p)
      | (None, b') \<Rightarrow> (None, FixedWriter b' (p + size1)))"
| "writer_write size1 fn (GrowableWriter bufs len) =
     (case fn (replicate size1 0) 0 of
        (Some x, chunk) \<Rightarrow> (Some x, GrowableWriter bufs len)
      | (None, chunk) \<Rightarrow> (None, GrowableWriter (bufs @ [chunk]) (len + size1)))"

text \<open>\<open>flush\<close>: the fixed writer hands out its buffer; the growable writer copies its
  chunks, one after the other, into a new zero-filled array of \<open>len\<close> bytes.\<close>

fun flush_loop :: "u8array list \<Rightarrow> u8array \<Rightarrow> nat \<Rightarrow> error + u8array" where
  "flush_loop [] out offset = Inr out"
| "flush_loop (b # bufs) out offset =
     (case set_at out b offset of
        (Some x, out') \<Rightarrow> Inl x
      | (None, out') \<Rightarrow> flush_loop bufs out' (offset + length b))"

fun flush :: "writer \<Rightarrow> error + u8array" where
  "flush (FixedWriter b p) = Inr b"
| "flush (GrowableWriter bufs len) = flush_loop bufs (replicate len 0) 0"

text \<open>
  A sequence of write operations, each a slot size with its callback, run against one
  writer and flushed: what a caller does who writes several values and then calls
  \<open>flush\<close>. The run stops at the first exception.
\<close>

fun write_all :: "(nat \<times> write_fn) list \<Rightarrow> wr" where
  "write_all [] w = (None, w)"
| "write_all ((n, fn) # ops) w =
     (case writer_write n fn w of
        (Some x, w') \<Rightarrow> (Some x, w')
      | (None, w') \<Rightarrow> write_all ops w')"

definition flush_after :: "(nat \<times> write_fn) list \<Rightarrow> writer \<Rightarrow> error + u8array" where
  "flush_after ops w =
     (case write_all ops w of
        (Some x, w') \<Rightarrow> Inl x
      | (None, w') \<Rightarrow> flush w')"

text \<open>The callbacks of the library's codecs all copy one block of bytes to the offset
  they are handed (\<open>(b, o) => b.set(data, o)\<close>, and the \<open>DataView\<close> setters, which store
  the bytes of a number the same way).\<close>

definition set_block :: "u8array \<Rightarrow> write_fn" where
  "set_block src = (\<lambda>b o1. set_at b src o1)"

definition block_ops :: "(nat \<times> u8array) list \<Rightarrow> (nat \<times> write_fn) list" where
  "block_ops blocks = map (\<lambda>(n, src). (n, set_block src)) blocks"

definition padded :: "nat \<times> u8array \<Rightarrow> u8array" where
  "padded = (\<lambda>(n, src). src @ replicate (n - length src) 0)"

definition blocks_fit :: "(nat \<times> u8array) list \<Rightarrow> bool" where
  "blocks_fit blocks = list_all (\<lambda>(n, src). length src \<le> n) blocks"

section \<open>Values\<close>

text \<open>
  The JavaScript values the codecs encode and decode. A \<open>number\<close> is modelled where it
  is an integer (\<open>VNum\<close>; the floating-point codecs are outside the model), a \<open>bigint\<close> is
  \<open>VBig\<close>. A string is represented by the bytes of its UTF-8 form, one \<open>char\<close> per byte,
  so that \<open>TextEncoder.encode\<close> is the identity on the representation; this covers the
  well-formed strings (no lone surrogate). An object is the list of its properties, an array
  or a tuple the list of its elements.
\<close>

datatype val =
    VUndef
  | VNull
  | VBool bool
  | VNum int
  | VBig int
  | VStr string
  | VBytes u8array
  | VArr "val list"
  | VObj "(string \<times> val) list"

text \<open>\<open>v[key]\<close> on an object: the property, or \<open>undefined\<close>.\<close>

definition obj_get :: "(string \<times> val) list \<Rightarrow> string \<Rightarrow> val" where
  "obj_get props key = (case map_of props key of Some x \<Rightarrow> x | None \<Rightarrow> VUndef)"

text \<open>\<open>v[i]\<close> on an array: the element, or \<open>undefined\<close> past the end.\<close>

definition arr_get :: "val list \<Rightarrow> nat \<Rightarrow> val" where
  "arr_get xs i = (if i < length xs then xs ! i else VUndef)"

text \<open>\<open>keys.indexOf(x)\<close>: the first position of \<open>x\<close>, \<open>None\<close> for \<open>-1\<close>.\<close>

fun indexOf :: "'a list \<Rightarrow> 'a \<Rightarrow> nat option" where
  "indexOf [] x = None"
| "indexOf (y # ys) x = (if y = x then Some 0 else map_option Suc (indexOf ys x))"

section \<open>Sequencing on a mutable reader or writer\<close>

text \<open>
  Two statements in a row on the one writer (reader): the second runs on the writer the
  first left behind, unless the first threw.
\<close>

definition wseq :: "error option \<times> writer \<Rightarrow> wr \<Rightarrow> error option \<times> writer" where
  "wseq m k = (case m of (Some x, w') \<Rightarrow> (Some x, w') | (None, w') \<Rightarrow> k w')"

definition rbind :: "(error + 'a) \<times> reader \<Rightarrow> ('a \<Rightarrow> 'b rd) \<Rightarrow> (error + 'b) \<times> reader" where
  "rbind m k = (case m of (Inl x, r') \<Rightarrow> (Inl x, r') | (Inr a, r') \<Rightarrow> k a r')"

definition rmap :: "('a \<Rightarrow> 'b) \<Rightarrow> (error + 'a) \<times> reader \<Rightarrow> (error + 'b) \<times> reader" where
  "rmap f m = (case m of (Inl x, r') \<Rightarrow> (Inl x, r') | (Inr a, r') \<Rightarrow> (Inr (f a), r'))"

definition sbind :: "error + 'a \<Rightarrow> ('a \<Rightarrow> error + 'b) \<Rightarrow> error + 'b" where
  "sbind m k = (case m of Inl x \<Rightarrow> Inl x | Inr a \<Rightarrow> k a)"

section \<open>DataView\<close>

text \<open>
  \<open>dv(b)\<close> is a view of the whole array, so an access at offset \<open>o\<close> is an access to the
  bytes of \<open>b\<close> from \<open>o\<close>. A setter stores the low \<open>8 * k\<close> bits of the number, most
  significant byte first unless \<open>littleEndian\<close>; the signed and the unsigned setter of one
  width store the same bytes. A getter reads them back as an unsigned or as a two's
  complement number. An access that does not fit throws \<open>RangeError\<close>.
\<close>

fun to_bytes_be :: "nat \<Rightarrow> nat \<Rightarrow> u8array" where
  "to_bytes_be 0 n = []"
| "to_bytes_be (Suc k) n = to_bytes_be k (n div 256) @ [of_nat (n mod 256)]"

definition from_bytes_be :: "u8array \<Rightarrow> nat" where
  "from_bytes_be bs = foldl (\<lambda>a b. a * 256 + unat b) 0 bs"

definition number_bytes :: "nat \<Rightarrow> bool \<Rightarrow> int \<Rightarrow> u8array" where
  "number_bytes k littleEndian x =
     (let bs = to_bytes_be k (nat (x mod 2 ^ (8 * k)))
      in if littleEndian then rev bs else bs)"

definition dv_range_error :: error where
  "dv_range_error = RangeError ''Offset is outside the bounds of the DataView''"

definition dv_set :: "nat \<Rightarrow> u8array \<Rightarrow> nat \<Rightarrow> int \<Rightarrow> bool \<Rightarrow> error option \<times> u8array" where
  "dv_set k b o1 x littleEndian =
     (if o1 + k > length b then (Some dv_range_error, b)
      else (None, take o1 b @ number_bytes k littleEndian x @ drop (o1 + k) b))"

definition dv_get_unsigned :: "nat \<Rightarrow> u8array \<Rightarrow> nat \<Rightarrow> bool \<Rightarrow> error + int" where
  "dv_get_unsigned k b o1 littleEndian =
     (if o1 + k > length b then Inl dv_range_error
      else (let bs = slice b o1 (o1 + k)
            in Inr (int (from_bytes_be (if littleEndian then rev bs else bs)))))"

definition dv_get_signed :: "nat \<Rightarrow> u8array \<Rightarrow> nat \<Rightarrow> bool \<Rightarrow> error + int" where
  "dv_get_signed k b o1 littleEndian =
     sbind (dv_get_unsigned k b o1 littleEndian)
       (\<lambda>u. Inr (if u \<ge> 2 ^ (8 * k - 1) then u - 2 ^ (8 * k) else u))"

section \<open>TextEncoder and TextDecoder\<close>

text \<open>
  \<open>ENC.encode(v)\<close> yields the UTF-8 bytes of the string, which are its representation.
  \<open>DEC\<close> is \<open>new TextDecoder('utf-8', { fatal: true })\<close>: the decoder of the Encoding
  standard, a machine with the number of continuation bytes still needed and the bounds
  of the next one. It throws \<open>TypeError\<close> on a malformed sequence; its \<open>ignoreBOM\<close> is
  false, so a byte order mark at the start of the input is not part of the result.
\<close>

definition byte_of_char :: "char \<Rightarrow> byte" where
  "byte_of_char c = of_nat (of_char c)"

definition char_of_byte :: "byte \<Rightarrow> char" where
  "char_of_byte b = char_of (unat b)"

definition ENC_encode :: "string \<Rightarrow> u8array" where
  "ENC_encode v = map byte_of_char v"

text \<open>The decoder's state: bytes needed, lower boundary, upper boundary; \<open>None\<close> after
  an error.\<close>

definition utf8_start :: "nat \<times> nat \<times> nat" where
  "utf8_start = (0, 0x80, 0xBF)"

fun utf8_step :: "byte \<Rightarrow> (nat \<times> nat \<times> nat) option \<Rightarrow> (nat \<times> nat \<times> nat) option" where
  "utf8_step b None = None"
| "utf8_step b (Some (needed, lower, upper)) =
     (let x = unat b in
      if needed = 0 then
        (if x \<le> 0x7F then Some (0, 0x80, 0xBF)
         else if 0xC2 \<le> x \<and> x \<le> 0xDF then Some (1, 0x80, 0xBF)
         else if 0xE0 \<le> x \<and> x \<le> 0xEF then
           Some (2, if x = 0xE0 then 0xA0 else 0x80, if x = 0xED then 0x9F else 0xBF)
         else if 0xF0 \<le> x \<and> x \<le> 0xF4 then
           Some (3, if x = 0xF0 then 0x90 else 0x80, if x = 0xF4 then 0x8F else 0xBF)
         else None)
      else if lower \<le> x \<and> x \<le> upper then Some (needed - 1, 0x80, 0xBF)
      else None)"

definition valid_utf8 :: "u8array \<Rightarrow> bool" where
  "valid_utf8 bs = (fold utf8_step bs (Some utf8_start) = Some utf8_start)"

definition has_bom :: "u8array \<Rightarrow> bool" where
  "has_bom bs = (take 3 bs = [0xEF, 0xBB, 0xBF])"

definition DEC_decode :: "u8array \<Rightarrow> error + string" where
  "DEC_decode bs =
     (if valid_utf8 bs then Inr (map char_of_byte (if has_bom bs then drop 3 bs else bs))
      else Inl (TypeError ''The encoded data was not valid for encoding utf-8''))"

text \<open>\<open>str.replace(/\0+$/, '')\<close>: the string without its trailing NUL characters.\<close>

definition strip_nuls :: "string \<Rightarrow> string" where
  "strip_nuls str = rev (dropWhile (\<lambda>c. c = CHR 0x00) (rev str))"

section \<open>Codecs\<close>

text \<open>
  A codec is the object \<open>{ s, e, d }\<close>: the size descriptor (a number for a
  \<open>FixedSize\<close> codec, a function of the value for a \<open>DynamicSize\<close> one), the encoder
  and the decoder. A \<open>Schema\<close> codec also carries the shape it was built from, listed as
  \<open>Object.entries\<close> lists it, and a \<open>Literal\<close> codec its value. (\<open>optional: true\<close> is
  read by the types only.) Property names of one object are distinct.
\<close>

datatype size_desc = FixedSize nat | DynamicSize "val \<Rightarrow> error + nat"

datatype codec =
  Codec (codec_s: size_desc)
        (codec_e: "writer \<Rightarrow> val \<Rightarrow> error option \<times> writer")
        (codec_d: "reader \<Rightarrow> (error + val) \<times> reader")
        (schema: "(string \<times> codec) list")
        (lit_value: "val option")

text \<open>\<open>size(codec, value)\<close>.\<close>

definition size_c :: "codec \<Rightarrow> val \<Rightarrow> error + nat" where
  "size_c codec v = (case codec_s codec of DynamicSize f \<Rightarrow> f v | FixedSize n \<Rightarrow> Inr n)"

text \<open>\<open>codec.s\<close> read as a number, as the library reads \<open>Uint8.s\<close>, \<open>Uint16.s\<close> and
  \<open>Uint32.s\<close>.\<close>

definition fixed_s :: "codec \<Rightarrow> nat" where
  "fixed_s codec = (case codec_s codec of FixedSize n \<Rightarrow> n | DynamicSize f \<Rightarrow> 0)"

subsection \<open>Numbers\<close>

datatype endian = LE | BE

type_synonym getter = "u8array \<Rightarrow> nat \<Rightarrow> bool \<Rightarrow> error + int"
type_synonym setter = "u8array \<Rightarrow> nat \<Rightarrow> int \<Rightarrow> bool \<Rightarrow> error option \<times> u8array"

text \<open>The encoder and the decoder of \<open>numCodec\<close> at their TypeScript type, on a
  \<open>number\<close>; the codec applies them to a \<open>VNum\<close>, and \<open>bigNumCodec\<close> to a \<open>VBig\<close>.\<close>

definition numCodec_e :: "nat \<Rightarrow> setter \<Rightarrow> endian \<Rightarrow> writer \<Rightarrow> int \<Rightarrow> error option \<times> writer" where
  "numCodec_e bytes setter endian w v =
     writer_write bytes (\<lambda>b o1. setter b o1 v (endian = LE)) w"

definition numCodec_d :: "nat \<Rightarrow> getter \<Rightarrow> endian \<Rightarrow> int rd" where
  "numCodec_d bytes getter endian r =
     reader_read bytes (\<lambda>b o1 e1. getter b o1 (endian = LE)) r"

definition numCodec :: "nat \<Rightarrow> getter \<Rightarrow> setter \<Rightarrow> endian \<Rightarrow> codec" where
  "numCodec bytes getter setter endian =
     Codec (FixedSize bytes)
       (\<lambda>w v. case v of VNum x \<Rightarrow> numCodec_e bytes setter endian w x
                | _ \<Rightarrow> (Some IllTyped, w))
       (\<lambda>r. rmap VNum (numCodec_d bytes getter endian r))
       [] None"

definition bigNumCodec :: "nat \<Rightarrow> getter \<Rightarrow> setter \<Rightarrow> endian \<Rightarrow> codec" where
  "bigNumCodec bytes getter setter endian =
     Codec (FixedSize bytes)
       (\<lambda>w v. case v of VBig x \<Rightarrow> numCodec_e bytes setter endian w x
                | _ \<Rightarrow> (Some IllTyped, w))
       (\<lambda>r. rmap VBig (numCodec_d bytes getter endian r))
       [] None"

definition uint8 :: codec where
  "uint8 = numCodec 1 (\<lambda>v o1 le. dv_get_unsigned 1 v o1 False) (\<lambda>v o1 x le. dv_set 1 v o1 x False) BE"

definition int8 :: codec where
  "int8 = numCodec 1 (\<lambda>v o1 le. dv_get_signed 1 v o1 False) (\<lambda>v o1 x le. dv_set 1 v o1 x False) BE"

definition uint16 :: "endian \<Rightarrow> codec" where
  "uint16 = numCodec 2 (dv_get_unsigned 2) (dv_set 2)"

definition int16 :: "endian \<Rightarrow> codec" where
  "int16 = numCodec 2 (dv_get_signed 2) (dv_set 2)"

definition uint32 :: "endian \<Rightarrow> codec" where
  "uint32 = numCodec 4 (dv_get_unsigned 4) (dv_set 4)"

definition int32 :: "endian \<Rightarrow> codec" where
  "int32 = numCodec 4 (dv_get_signed 4) (dv_set 4)"

definition bigUint64 :: "endian \<Rightarrow> codec" where
  "bigUint64 = bigNumCodec 8 (dv_get_unsigned 8) (dv_set 8)"

definition bigInt64 :: "endian \<Rightarrow> codec" where
  "bigInt64 = bigNumCodec 8 (dv_get_signed 8) (dv_set 8)"

definition Uint8 :: codec where "Uint8 = uint8"
definition Int8 :: codec where "Int8 = int8"
definition Uint16 :: codec where "Uint16 = uint16 BE"
definition Int16 :: codec where "Int16 = int16 BE"
definition Uint32 :: codec where "Uint32 = uint32 BE"
definition Int32 :: codec where "Int32 = int32 BE"
definition BigUint64 :: codec where "BigUint64 = bigUint64 BE"
definition BigInt64 :: codec where "BigInt64 = bigInt64 BE"

text \<open>\<open>Uint8.e\<close>, \<open>Uint8.d\<close>, \<open>Uint16.e\<close>, ... as the other codecs call them, on a
  \<open>number\<close>.\<close>

definition Uint8_e :: "writer \<Rightarrow> int \<Rightarrow> error option \<times> writer" where
  "Uint8_e = numCodec_e 1 (\<lambda>v o1 x le. dv_set 1 v o1 x False) BE"

definition Uint8_d :: "int rd" where
  "Uint8_d = numCodec_d 1 (\<lambda>v o1 le. dv_get_unsigned 1 v o1 False) BE"

definition Uint16_e :: "writer \<Rightarrow> int \<Rightarrow> error option \<times> writer" where
  "Uint16_e = numCodec_e 2 (dv_set 2) BE"

definition Uint16_d :: "int rd" where
  "Uint16_d = numCodec_d 2 (dv_get_unsigned 2) BE"

definition Uint32_e :: "writer \<Rightarrow> int \<Rightarrow> error option \<times> writer" where
  "Uint32_e = numCodec_e 4 (dv_set 4) BE"

definition Uint32_d :: "int rd" where
  "Uint32_d = numCodec_d 4 (dv_get_unsigned 4) BE"

subsection \<open>Booleans, strings, JSON, byte arrays, literals\<close>

definition Bool :: codec where
  "Bool =
     Codec (FixedSize (fixed_s Uint8))
       (\<lambda>w v. case v of VBool t \<Rightarrow> Uint8_e w (if t then 1 else 0)
                | _ \<Rightarrow> (Some IllTyped, w))
       (\<lambda>r. rmap (\<lambda>x. VBool (x = 1)) (Uint8_d r))
       [] None"

definition smap :: "('a \<Rightarrow> 'b) \<Rightarrow> error + 'a \<Rightarrow> error + 'b" where
  "smap f m = (case m of Inl x \<Rightarrow> Inl x | Inr a \<Rightarrow> Inr (f a))"

definition Utf8 :: codec where
  "Utf8 =
     Codec
       (DynamicSize (\<lambda>v. case v of
            VStr str \<Rightarrow> Inr (length (ENC_encode str) + fixed_s Uint32)
          | _ \<Rightarrow> Inl IllTyped))
       (\<lambda>w v. case v of
            VStr str \<Rightarrow>
              (let enc = ENC_encode str
               in wseq (Uint32_e w (int (length enc)))
                    (writer_write (length enc) (set_block enc)))
          | _ \<Rightarrow> (Some IllTyped, w))
       (\<lambda>r. rbind (Uint32_d r)
               (\<lambda>n. reader_read (nat n) (\<lambda>b o1 e1. smap VStr (DEC_decode (slice b o1 e1)))))
       [] None"

text \<open>The argument of \<open>utf8\<close>: \<open>{ fixed: N }\<close>, or \<open>{ maxBytes }\<close> with the bound
  possibly absent (also no argument at all).\<close>

datatype utf8_params = Utf8Fixed nat | Utf8MaxBytes "nat option"

definition utf8_too_long :: "nat option \<Rightarrow> nat \<Rightarrow> bool" where
  "utf8_too_long maxBytes n = (case maxBytes of None \<Rightarrow> False | Some m \<Rightarrow> n > m)"

definition utf8 :: "utf8_params \<Rightarrow> codec" where
  "utf8 p =
     (case p of
        Utf8Fixed fixed \<Rightarrow>
          Codec (FixedSize fixed)
            (\<lambda>w v. case v of
                 VStr str \<Rightarrow> writer_write fixed (set_block (ENC_encode str)) w
               | _ \<Rightarrow> (Some IllTyped, w))
            (\<lambda>r. reader_read fixed
                    (\<lambda>b o1 e1. smap (\<lambda>t. VStr (strip_nuls t))
                                  (DEC_decode (slice b o1 (o1 + fixed)))) r)
            [] None
      | Utf8MaxBytes maxBytes \<Rightarrow>
          Codec
            (DynamicSize (\<lambda>v. case v of
                 VStr str \<Rightarrow>
                   (let enc = ENC_encode str
                    in if utf8_too_long maxBytes (length enc)
                       then Inl (Error (''utf8 too long: '' @ show_nat (length enc)))
                       else Inr (fixed_s Uint32 + length enc))
               | _ \<Rightarrow> Inl IllTyped))
            (\<lambda>w v. case v of
                 VStr str \<Rightarrow>
                   (let enc = ENC_encode str
                    in if utf8_too_long maxBytes (length enc)
                       then (Some (Error (''utf8 too long: '' @ show_nat (length enc))), w)
                       else wseq (Uint32_e w (int (length enc)))
                              (writer_write (length enc) (set_block enc)))
               | _ \<Rightarrow> (Some IllTyped, w))
            (\<lambda>r. rbind (Uint32_d r)
                    (\<lambda>n r'. if utf8_too_long maxBytes (nat n)
                             then (Inl (Error (''utf8 length '' @ show_nat (nat n) @ '' > max ''
                                               @ show_nat (the maxBytes))), r')
                             else reader_read (nat n)
                                    (\<lambda>b o1 e1. smap VStr (DEC_decode (slice b o1 e1))) r'))
            [] None)"

text \<open>\<open>JSON.stringify\<close> and \<open>JSON.parse\<close> are the platform's; \<open>json\<close> takes them as
  parameters.\<close>

definition json :: "(val \<Rightarrow> error + string) \<Rightarrow> (string \<Rightarrow> error + val) \<Rightarrow> codec" where
  "json stringify parse =
     Codec
       (DynamicSize (\<lambda>v. sbind (stringify v)
                            (\<lambda>t. Inr (length (ENC_encode t) + fixed_s Uint32))))
       (\<lambda>w v. case stringify v of
                 Inl x \<Rightarrow> (Some x, w)
               | Inr t \<Rightarrow> codec_e Utf8 w (VStr t))
       (\<lambda>r. rbind (codec_d Utf8 r)
               (\<lambda>t r'. case t of VStr u \<Rightarrow> (parse u, r') | _ \<Rightarrow> (Inl IllTyped, r')))
       [] None"

definition Bytes :: codec where
  "Bytes =
     Codec
       (DynamicSize (\<lambda>v. case v of
            VBytes bs \<Rightarrow> Inr (length bs + fixed_s Uint32)
          | _ \<Rightarrow> Inl IllTyped))
       (\<lambda>w v. case v of
            VBytes bs \<Rightarrow>
              wseq (Uint32_e w (int (length bs))) (writer_write (length bs) (set_block bs))
          | _ \<Rightarrow> (Some IllTyped, w))
       (\<lambda>r. rbind (Uint32_d r)
               (\<lambda>n. reader_read (nat n) (\<lambda>b o1 e1. Inr (VBytes (slice b o1 e1)))))
       [] None"

text \<open>The argument of \<open>bytes\<close>: \<open>{ fixed: N }\<close>, \<open>{ max }\<close>, or none.\<close>

datatype bytes_params = BytesFixed nat | BytesMax nat | BytesNoParams

definition bytes :: "bytes_params \<Rightarrow> codec" where
  "bytes p =
     (case p of
        BytesFixed fixed \<Rightarrow>
          Codec (FixedSize fixed)
            (\<lambda>w v. case v of
                 VBytes bs \<Rightarrow> writer_write fixed (set_block bs) w
               | _ \<Rightarrow> (Some IllTyped, w))
            (\<lambda>r. reader_read fixed (\<lambda>b o1 e1. Inr (VBytes (slice b o1 e1))) r)
            [] None
      | BytesNoParams \<Rightarrow> Bytes
      | BytesMax mx \<Rightarrow>
          Codec
            (DynamicSize (\<lambda>v. case v of
                 VBytes bs \<Rightarrow>
                   (if length bs > mx then Inl (Error ''bytes too long'')
                    else Inr (fixed_s Uint32 + length bs))
               | _ \<Rightarrow> Inl IllTyped))
            (\<lambda>w v. case v of
                 VBytes bs \<Rightarrow>
                   (if length bs > mx then (Some (Error ''bytes too long''), w)
                    else wseq (Uint32_e w (int (length bs)))
                           (writer_write (length bs) (set_block bs)))
               | _ \<Rightarrow> (Some IllTyped, w))
            (\<lambda>r. rbind (Uint32_d r)
                    (\<lambda>n r'. if nat n > mx
                             then (Inl (Error (''bytes length '' @ show_nat (nat n) @ '' > max ''
                                               @ show_nat mx)), r')
                             else reader_read (nat n)
                                    (\<lambda>b o1 e1. Inr (VBytes (slice b o1 e1))) r'))
            [] None)"

definition literal :: "val \<Rightarrow> codec" where
  "literal v =
     Codec (FixedSize 0) (\<lambda>w x. (None, w)) (\<lambda>r. (Inr v, r)) [] (Some v)"

subsection \<open>Loops\<close>

text \<open>\<open>for (const x of v) inner.e(w, x)\<close> and the \<open>for\<close> loops over a shape.\<close>

fun e_each :: "(writer \<Rightarrow> 'a \<Rightarrow> error option \<times> writer) \<Rightarrow> 'a list \<Rightarrow> wr" where
  "e_each f [] w = (None, w)"
| "e_each f (x # xs) w = wseq (f w x) (e_each f xs)"

text \<open>\<open>for (let i = 0; i < n; i++) out[i] = inner.d(r)\<close>.\<close>

fun d_times :: "nat \<Rightarrow> 'a rd \<Rightarrow> 'a list rd" where
  "d_times 0 f r = (Inr [], r)"
| "d_times (Suc n) f r = rbind (f r) (\<lambda>x r'. rmap (\<lambda>xs. x # xs) (d_times n f r'))"

text \<open>The decoding loops over a shape, which collect one result for each entry.\<close>

fun d_each :: "('a \<Rightarrow> 'b rd) \<Rightarrow> 'a list \<Rightarrow> 'b list rd" where
  "d_each f [] r = (Inr [], r)"
| "d_each f (x # xs) r = rbind (f x r) (\<lambda>y r'. rmap (\<lambda>ys. y # ys) (d_each f xs r'))"

text \<open>\<open>xs.reduce((acc, x) => acc + f(x), acc0)\<close>, where \<open>f\<close> may throw.\<close>

fun sum_sizes :: "('a \<Rightarrow> error + nat) \<Rightarrow> 'a list \<Rightarrow> nat \<Rightarrow> error + nat" where
  "sum_sizes f [] acc = Inr acc"
| "sum_sizes f (x # xs) acc = sbind (f x) (\<lambda>n. sum_sizes f xs (acc + n))"

subsection \<open>Combinators\<close>

definition optional :: "codec \<Rightarrow> codec" where
  "optional inner =
     Codec
       (DynamicSize (\<lambda>v. if v = VUndef then Inr (fixed_s Uint8 + 0)
                          else sbind (size_c inner v) (\<lambda>n. Inr (fixed_s Uint8 + n))))
       (\<lambda>w v. if v = VUndef then Uint8_e w 0
               else wseq (Uint8_e w 1) (\<lambda>w'. codec_e inner w' v))
       (\<lambda>r. rbind (Uint8_d r) (\<lambda>flag r'. if flag = 0 then (Inr VUndef, r') else codec_d inner r'))
       [] None"

definition nullable :: "codec \<Rightarrow> codec" where
  "nullable inner =
     Codec
       (DynamicSize (\<lambda>v. if v = VNull then Inr (fixed_s Uint8 + 0)
                          else sbind (size_c inner v) (\<lambda>n. Inr (fixed_s Uint8 + n))))
       (\<lambda>w v. if v = VNull then Uint8_e w 0
               else wseq (Uint8_e w 1) (\<lambda>w'. codec_e inner w' v))
       (\<lambda>r. rbind (Uint8_d r) (\<lambda>flag r'. if flag = 0 then (Inr VNull, r') else codec_d inner r'))
       [] None"

definition array :: "codec \<Rightarrow> nat option \<Rightarrow> codec" where
  "array inner maxLength =
     (case maxLength of
        Some mx \<Rightarrow>
          Codec
            (DynamicSize (\<lambda>v. case v of
                 VArr xs \<Rightarrow>
                   (if length xs > mx then Inl (Error ''array too long'')
                    else sbind (sum_sizes (size_c inner) xs 0) (\<lambda>t. Inr (fixed_s Uint32 + t)))
               | _ \<Rightarrow> Inl IllTyped))
            (\<lambda>w v. case v of
                 VArr xs \<Rightarrow>
                   (if length xs > mx then (Some (Error ''array too long''), w)
                    else wseq (Uint32_e w (int (length xs))) (e_each (codec_e inner) xs))
               | _ \<Rightarrow> (Some IllTyped, w))
            (\<lambda>r. rbind (Uint32_d r)
                    (\<lambda>n r'. if nat n > mx
                             then (Inl (Error (''array len '' @ show_nat (nat n) @ '' > ''
                                               @ show_nat mx)), r')
                             else rmap VArr (d_times (nat n) (codec_d inner) r')))
            [] None
      | None \<Rightarrow>
          Codec
            (DynamicSize (\<lambda>v. case v of
                 VArr xs \<Rightarrow>
                   sbind (sum_sizes (size_c inner) xs 0) (\<lambda>t. Inr (fixed_s Uint32 + t))
               | _ \<Rightarrow> Inl IllTyped))
            (\<lambda>w v. case v of
                 VArr xs \<Rightarrow> wseq (Uint32_e w (int (length xs))) (e_each (codec_e inner) xs)
               | _ \<Rightarrow> (Some IllTyped, w))
            (\<lambda>r. rbind (Uint32_d r) (\<lambda>n r'. rmap VArr (d_times (nat n) (codec_d inner) r')))
            [] None)"

text \<open>\<open>struct\<close>: the three loops run over the properties of \<open>shape\<close> in the order in
  which JavaScript lists them, which is the order of the list.\<close>

definition struct :: "(string \<times> codec) list \<Rightarrow> codec" where
  "struct shape =
     Codec
       (DynamicSize (\<lambda>v. case v of
            VObj props \<Rightarrow> sum_sizes (\<lambda>(key, c). size_c c (obj_get props key)) shape 0
          | _ \<Rightarrow> Inl IllTyped))
       (\<lambda>w v. case v of
            VObj props \<Rightarrow> e_each (\<lambda>w' (key, c). codec_e c w' (obj_get props key)) shape w
          | _ \<Rightarrow> (Some IllTyped, w))
       (\<lambda>r. rmap VObj (d_each (\<lambda>(key, c) r'. rmap (Pair key) (codec_d c r')) shape r))
       shape None"

text \<open>Reading a property of \<open>undefined\<close>: \<open>shape[i]\<close> past the end of a tuple's shape,
  \<open>shape[tag]\<close> for an unknown tag, \<open>schema[idx]\<close> outside the list.\<close>

definition undefined_error :: error where
  "undefined_error = TypeError ''Cannot read properties of undefined''"

definition index_keys :: "'a list \<Rightarrow> (string \<times> 'a) list" where
  "index_keys xs = zip (map show_nat [0..<length xs]) xs"

definition tuple :: "codec list \<Rightarrow> codec" where
  "tuple shape =
     Codec
       (DynamicSize (\<lambda>v. case v of
            VArr xs \<Rightarrow>
              sum_sizes (\<lambda>(i, item). if i < length shape then size_c (shape ! i) item
                                      else Inl undefined_error)
                (zip [0..<length xs] xs) 0
          | _ \<Rightarrow> Inl IllTyped))
       (\<lambda>w v. case v of
            VArr xs \<Rightarrow>
              e_each (\<lambda>w' (i, c). codec_e c w' (arr_get xs i)) (zip [0..<length shape] shape) w
          | _ \<Rightarrow> (Some IllTyped, w))
       (\<lambda>r. rmap VArr (d_each codec_d shape r))
       (index_keys shape) None"

text \<open>The value of a tagged union is the pair \<open>[tag, value]\<close>.\<close>

fun tagged :: "val \<Rightarrow> (string \<times> val) option" where
  "tagged (VArr [VStr tag, x]) = Some (tag, x)"
| "tagged v = None"

definition taggedUnion :: "(string \<times> codec) list \<Rightarrow> codec" where
  "taggedUnion shape =
     (let keys = map fst shape in
      Codec
        (DynamicSize (\<lambda>v. case tagged v of
             Some (tag, x) \<Rightarrow>
               (case map_of shape tag of
                  Some c \<Rightarrow> sbind (size_c c x) (\<lambda>n. Inr (fixed_s Uint8 + n))
                | None \<Rightarrow> Inl undefined_error)
           | None \<Rightarrow> Inl IllTyped))
        (\<lambda>w v. case tagged v of
             Some (tag, x) \<Rightarrow>
               (case indexOf keys tag of
                  None \<Rightarrow> (Some (Error (''bad tag '' @ tag)), w)
                | Some idx \<Rightarrow>
                    wseq (Uint8_e w (int idx))
                      (\<lambda>w'. case map_of shape tag of
                               Some c \<Rightarrow> codec_e c w' x
                             | None \<Rightarrow> (Some undefined_error, w')))
           | None \<Rightarrow> (Some IllTyped, w))
        (\<lambda>r. rbind (Uint8_d r)
                (\<lambda>idx r'. if idx < 0 \<or> nat idx \<ge> length keys
                           then (Inl (Error (''bad tag index '' @ show_nat (nat idx))), r')
                           else (let key = keys ! nat idx in
                                 case map_of shape key of
                                   Some c \<Rightarrow> rmap (\<lambda>x. VArr [VStr key, x]) (codec_d c r')
                                 | None \<Rightarrow> (Inl undefined_error, r'))))
        shape None)"

text \<open>
  \<open>discriminatedUnion\<close>: \<open>keys\<close> holds the literal of every candidate at the tag field.
  \<open>indexOf\<close> compares with \<open>===\<close>: primitive values by value, objects and arrays by
  reference, which the value model does not have, so that a value that is not primitive is
  taken to be found nowhere.
\<close>

definition literal_at :: "codec \<Rightarrow> string \<Rightarrow> val" where
  "literal_at s tag =
     (case map_of (schema s) tag of
        Some c \<Rightarrow> (case lit_value c of Some v \<Rightarrow> v | None \<Rightarrow> VUndef)
      | None \<Rightarrow> VUndef)"

fun primitive :: "val \<Rightarrow> bool" where
  "primitive (VBytes bs) = False"
| "primitive (VArr xs) = False"
| "primitive (VObj props) = False"
| "primitive v = True"

definition indexOf_strict :: "val list \<Rightarrow> val \<Rightarrow> nat option" where
  "indexOf_strict keys x = (if primitive x then indexOf keys x else None)"

definition discriminatedUnion :: "string \<Rightarrow> codec list \<Rightarrow> codec" where
  "discriminatedUnion tag schemas =
     (let keys = map (\<lambda>s. literal_at s tag) schemas in
      Codec
        (DynamicSize (\<lambda>v. case v of
             VObj props \<Rightarrow>
               (case indexOf_strict keys (obj_get props tag) of
                  Some idx \<Rightarrow> sbind (size_c (schemas ! idx) v) (\<lambda>n. Inr (fixed_s Uint8 + n))
                | None \<Rightarrow> Inl undefined_error)
           | _ \<Rightarrow> Inl IllTyped))
        (\<lambda>w v. case v of
             VObj props \<Rightarrow>
               (case indexOf_strict keys (obj_get props tag) of
                  Some idx \<Rightarrow> wseq (Uint8_e w (int idx)) (\<lambda>w'. codec_e (schemas ! idx) w' v)
                | None \<Rightarrow> wseq (Uint8_e w (- 1)) (\<lambda>w'. (Some undefined_error, w')))
           | _ \<Rightarrow> (Some IllTyped, w))
        (\<lambda>r. rbind (Uint8_d r)
                (\<lambda>idx r'. if nat idx < length schemas then codec_d (schemas ! nat idx) r'
                           else (Inl undefined_error, r')))
        (index_keys schemas) None)"

subsection \<open>Driver functions\<close>

definition encode :: "codec \<Rightarrow> val \<Rightarrow> error + u8array" where
  "encode bincode v =
     (case codec_e bincode (writer None) v of
        (Some x, encoder) \<Rightarrow> Inl x
      | (None, encoder) \<Rightarrow> flush encoder)"

definition decode :: "codec \<Rightarrow> u8array \<Rightarrow> error + val" where
  "decode bincode b = fst (codec_d bincode (reader b 0))"

datatype 'a result = Ok 'a | Err error

fun message :: "error \<Rightarrow> string" where
  "message (Error m) = m"
| "message (RangeError m) = m"
| "message (TypeError m) = m"
| "message (SyntaxError m) = m"
| "message IllTyped = []"

definition err :: "string \<Rightarrow> 'a result" where
  "err m = Err (Error m)"

definition tryDecode :: "codec \<Rightarrow> u8array \<Rightarrow> val result" where
  "tryDecode codec data =
     (case fst (codec_d codec (checkedReader data 0)) of
        Inr v \<Rightarrow> Ok v
      | Inl x \<Rightarrow> err (message x))"

text \<open>\<open>read(reader, ...codes)\<close> and \<open>write(writer, codec, value)\<close>.\<close>

definition read_codecs :: "reader \<Rightarrow> codec list \<Rightarrow> (error + val list) \<times> reader" where
  "read_codecs r codes = d_each codec_d codes r"

definition write_codec :: "writer \<Rightarrow> codec \<Rightarrow> val \<Rightarrow> error option \<times> writer" where
  "write_codec w codec v = codec_e codec w v"

subsection \<open>Envelope\<close>

definition HEADER :: int where "HEADER = 0xb16ec0de"
definition VERSION :: int where "VERSION = 1"

definition envelope :: "codec \<Rightarrow> codec" where
  "envelope inner =
     Codec
       (DynamicSize (\<lambda>v. sbind (size_c inner v)
            (\<lambda>n. Inr (fixed_s Uint32 + fixed_s Uint16 + fixed_s Uint32 + n))))
       (\<lambda>w v. wseq (Uint32_e w HEADER)
                 (\<lambda>w1. wseq (Uint16_e w1 VERSION)
                    (\<lambda>w2. case encode inner v of
                             Inl x \<Rightarrow> (Some x, w2)
                           | Inr payload \<Rightarrow>
                               wseq (Uint32_e w2 (int (length payload)))
                                 (writer_write (length payload) (set_block payload)))))
       (\<lambda>r. rbind (Uint32_d r)
               (\<lambda>h r1. if h \<noteq> HEADER then (Inl (Error ''Missing header''), r1)
                        else rbind (Uint16_d r1)
                          (\<lambda>ver r2. if ver \<noteq> 1
                                     then (Inl (Error (''unsupported version ''
                                                       @ show_nat (nat ver))), r2)
                                     else rbind (Uint32_d r2)
                                       (\<lambda>n r3. rbind (reader_read (nat n)
                                                         (\<lambda>b o1 e1. Inr (slice b o1 e1)) r3)
                                                  (\<lambda>payload r4.
                                                     (fst (codec_d inner (reader payload 0)),
                                                      r4))))))
       [] None"

subsection \<open>validate, map, partial, intersection\<close>

text \<open>\<open>pre\<close> and \<open>post\<close> are optional and throw or return; the projections of \<open>map\<close>
  return a value or throw. Both codecs are \<open>{ ...codec, e, d }\<close>: every other property,
  \<open>s\<close> among them, is the wrapped codec's.\<close>

definition validate ::
  "codec \<Rightarrow> (val \<Rightarrow> error option) option \<Rightarrow> (val \<Rightarrow> error option) option \<Rightarrow> codec" where
  "validate codec pre post =
     Codec (codec_s codec)
       (\<lambda>w v. case (case pre of Some f \<Rightarrow> f v | None \<Rightarrow> None) of
                 Some x \<Rightarrow> (Some x, w)
               | None \<Rightarrow> codec_e codec w v)
       (\<lambda>r. rbind (codec_d codec r)
               (\<lambda>out r'. case (case post of Some g \<Rightarrow> g out | None \<Rightarrow> None) of
                            Some x \<Rightarrow> (Inl x, r')
                          | None \<Rightarrow> (Inr out, r')))
       (schema codec) (lit_value codec)"

definition map_c :: "codec \<Rightarrow> (val \<Rightarrow> error + val) \<Rightarrow> (val \<Rightarrow> error + val) \<Rightarrow> codec" where
  "map_c codec enc dec =
     Codec (codec_s codec)
       (\<lambda>w v. case enc v of
                 Inl x \<Rightarrow> (Some x, w)
               | Inr u \<Rightarrow> codec_e codec w u)
       (\<lambda>r. rbind (codec_d codec r) (\<lambda>x r'. (dec x, r')))
       (schema codec) (lit_value codec)"

text \<open>\<open>Object.fromEntries\<close>: a later entry of a name replaces the value and keeps the
  place of the first.\<close>

fun obj_put :: "(string \<times> 'a) list \<Rightarrow> string \<Rightarrow> 'a \<Rightarrow> (string \<times> 'a) list" where
  "obj_put [] key v = [(key, v)]"
| "obj_put ((k, x) # props) key v =
     (if k = key then (k, v) # props else (k, x) # obj_put props key v)"

definition fromEntries :: "(string \<times> 'a) list \<Rightarrow> (string \<times> 'a) list" where
  "fromEntries entries = foldl (\<lambda>obj (key, v). obj_put obj key v) [] entries"

definition partial :: "codec \<Rightarrow> codec" where
  "partial inner =
     struct (fromEntries (map (\<lambda>(key, v). (key, optional v)) (schema inner)))"

definition intersection :: "codec list \<Rightarrow> codec" where
  "intersection schemas = struct (fromEntries (concat (map schema schemas)))"

section \<open>Notions used to state the properties\<close>

text \<open>The buffer and the position of a reader, the reader \<open>n\<close> bytes further on, and
  which constructor built it.\<close>

fun advance :: "nat \<Rightarrow> reader \<Rightarrow> reader" where
  "advance n (Reader c) = Reader (c\<lparr>pos := pos c + n\<rparr>)"
| "advance n (CheckedReader c) = CheckedReader (c\<lparr>pos := pos c + n\<rparr>)"

fun is_checked :: "reader \<Rightarrow> bool" where
  "is_checked (Reader c) = False"
| "is_checked (CheckedReader c) = True"

definition rbuf :: "reader \<Rightarrow> u8array" where "rbuf r = buf (cursor_of r)"
definition rpos :: "reader \<Rightarrow> nat" where "rpos r = pos (cursor_of r)"

section \<open>Deep equality\<close>

text \<open>
  The equality of the repository's test (\<open>expect(decoded).toEqual(value)\<close>): arrays are
  equal element by element, objects property by property, where a property that is missing
  counts as \<open>undefined\<close> and the order of the properties does not matter; all other values
  are equal when they are the same value.
\<close>

function (sequential) deep_eq :: "val \<Rightarrow> val \<Rightarrow> bool" where
  "deep_eq (VArr xs) (VArr ys) =
     (length xs = length ys \<and> list_all (\<lambda>(x, y). deep_eq x y) (zip xs ys))"
| "deep_eq (VObj ps) (VObj qs) =
     list_all (\<lambda>key. deep_eq (obj_get ps key) (obj_get qs key)) (map fst ps @ map fst qs)"
| "deep_eq a b = (a = b)"
  by pat_completeness auto

lemma size_obj_get: "size (obj_get ps key) < Suc (size_list (size_prod (\<lambda>_. 0) size) ps)"
proof (induction ps)
  case Nil
  then show ?case by (simp add: obj_get_def)
next
  case (Cons p ps)
  then show ?case by (cases p) (auto simp: obj_get_def)
qed

lemma size_zip_fst: "(x, y) \<in> set (zip xs ys) \<Longrightarrow> size x < Suc (size_list size xs)"
proof -
  assume "(x, y) \<in> set (zip xs ys)"
  then have "x \<in> set xs" by (rule set_zip_leftD)
  then have "size x \<le> size_list size xs" by (rule size_list_estimation') simp
  then show ?thesis by simp
qed

termination deep_eq
proof (relation "measure (\<lambda>(a, b). size a)", goal_cases)
  case 1
  then show ?case by simp
next
  case (2 xs ys p x y)
  then show ?case using size_zip_fst [of x y xs ys] by auto
next
  case (3 ps qs key)
  then show ?case using size_obj_get [of ps key] by simp
qed

section \<open>The codecs built from the library\<close>

text \<open>
  The expressions that build a codec from the primitives and the combinators, and the codec
  each of them builds. \<open>partial\<close> and \<open>intersection\<close> build a \<open>struct\<close> from the schemas
  of their arguments and are covered through the structs they build.
\<close>

datatype cexp =
    XUint8 | XInt8
  | XUint16 endian | XInt16 endian
  | XUint32 endian | XInt32 endian
  | XBigUint64 endian | XBigInt64 endian
  | XBool
  | XUtf8
  | XUtf8With utf8_params
  | XJson "val \<Rightarrow> error + string" "string \<Rightarrow> error + val"
  | XBytes bytes_params
  | XLiteral val
  | XOptional cexp
  | XNullable cexp
  | XArray cexp "nat option"
  | XStruct "(string \<times> cexp) list"
  | XTuple "cexp list"
  | XTaggedUnion "(string \<times> cexp) list"
  | XDiscriminatedUnion string "cexp list"
  | XEnvelope cexp
  | XValidate cexp "(val \<Rightarrow> error option) option" "(val \<Rightarrow> error option) option"
  | XMap cexp "val \<Rightarrow> error + val" "val \<Rightarrow> error + val"

fun build :: "cexp \<Rightarrow> codec" where
  "build XUint8 = Uint8"
| "build XInt8 = Int8"
| "build (XUint16 en) = uint16 en"
| "build (XInt16 en) = int16 en"
| "build (XUint32 en) = uint32 en"
| "build (XInt32 en) = int32 en"
| "build (XBigUint64 en) = bigUint64 en"
| "build (XBigInt64 en) = bigInt64 en"
| "build XBool = Bool"
| "build XUtf8 = Utf8"
| "build (XUtf8With p) = utf8 p"
| "build (XJson stringify parse) = json stringify parse"
| "build (XBytes p) = bytes p"
| "build (XLiteral v) = literal v"
| "build (XOptional t) = optional (build t)"
| "build (XNullable t) = nullable (build t)"
| "build (XArray t maxLength) = array (build t) maxLength"
| "build (XStruct shape) = struct (map (\<lambda>(key, t). (key, build t)) shape)"
| "build (XTuple shape) = tuple (map build shape)"
| "build (XTaggedUnion shape) = taggedUnion (map (\<lambda>(key, t). (key, build t)) shape)"
| "build (XDiscriminatedUnion tag schemas) = discriminatedUnion tag (map build schemas)"
| "build (XEnvelope t) = envelope (build t)"
| "build (XValidate t pre post) = validate (build t) pre post"
| "build (XMap t enc dec) = map_c (build t) enc dec"

section \<open>The values a codec encodes\<close>

text \<open>
  The values of a codec's TypeScript type that its wire format can hold: a number within
  the range of its width, a well-formed string that does not start with a byte order mark,
  lengths and counts below \<open>2 ^ 32\<close> and within the configured maximum, a fixed-width
  string that fits and does not end in NUL, a fixed-size byte array of exactly that size,
  the value of a literal, an object with a property for every required field of a struct
  and no property outside its shape, a tuple of the shape's length, a declared tag of a
  union of at most 256 variants; for \<open>json\<close>, \<open>map\<close> and \<open>validate\<close>, a value on
  which the functions supplied by the caller undo each other and the checks pass.
\<close>

definition unsigned_fits :: "nat \<Rightarrow> int \<Rightarrow> bool" where
  "unsigned_fits k n = (0 \<le> n \<and> n < 2 ^ (8 * k))"

definition signed_fits :: "nat \<Rightarrow> int \<Rightarrow> bool" where
  "signed_fits k n = (- (2 ^ (8 * k - 1)) \<le> n \<and> n < 2 ^ (8 * k - 1))"

definition str_ok :: "string \<Rightarrow> bool" where
  "str_ok str = (valid_utf8 (ENC_encode str) \<and> \<not> has_bom (ENC_encode str))"

definition fits_u32 :: "nat \<Rightarrow> bool" where
  "fits_u32 n = (n < 2 ^ 32)"

definition run_check :: "(val \<Rightarrow> error option) option \<Rightarrow> val \<Rightarrow> error option" where
  "run_check f v = (case f of Some g \<Rightarrow> g v | None \<Rightarrow> None)"

function (sequential) encodable :: "cexp \<Rightarrow> val \<Rightarrow> bool" where
  "encodable XUint8 v = (case v of VNum n \<Rightarrow> unsigned_fits 1 n | _ \<Rightarrow> False)"
| "encodable XInt8 v = (case v of VNum n \<Rightarrow> signed_fits 1 n | _ \<Rightarrow> False)"
| "encodable (XUint16 en) v = (case v of VNum n \<Rightarrow> unsigned_fits 2 n | _ \<Rightarrow> False)"
| "encodable (XInt16 en) v = (case v of VNum n \<Rightarrow> signed_fits 2 n | _ \<Rightarrow> False)"
| "encodable (XUint32 en) v = (case v of VNum n \<Rightarrow> unsigned_fits 4 n | _ \<Rightarrow> False)"
| "encodable (XInt32 en) v = (case v of VNum n \<Rightarrow> signed_fits 4 n | _ \<Rightarrow> False)"
| "encodable (XBigUint64 en) v = (case v of VBig n \<Rightarrow> unsigned_fits 8 n | _ \<Rightarrow> False)"
| "encodable (XBigInt64 en) v = (case v of VBig n \<Rightarrow> signed_fits 8 n | _ \<Rightarrow> False)"
| "encodable XBool v = (case v of VBool t \<Rightarrow> True | _ \<Rightarrow> False)"
| "encodable XUtf8 v =
     (case v of VStr str \<Rightarrow> str_ok str \<and> fits_u32 (length str) | _ \<Rightarrow> False)"
| "encodable (XUtf8With p) v =
     (case v of
        VStr str \<Rightarrow>
          str_ok str \<and>
          (case p of
             Utf8Fixed n \<Rightarrow> length str \<le> n \<and> strip_nuls str = str
           | Utf8MaxBytes maxBytes \<Rightarrow>
               fits_u32 (length str) \<and> \<not> utf8_too_long maxBytes (length str))
      | _ \<Rightarrow> False)"
| "encodable (XJson stringify parse) v =
     (case stringify v of
        Inr str \<Rightarrow>
          str_ok str \<and> fits_u32 (length str) \<and>
          (case parse str of Inr v' \<Rightarrow> deep_eq v' v | Inl x \<Rightarrow> False)
      | Inl x \<Rightarrow> False)"
| "encodable (XBytes p) v =
     (case v of
        VBytes bs \<Rightarrow>
          (case p of
             BytesFixed n \<Rightarrow> length bs = n
           | BytesMax mx \<Rightarrow> length bs \<le> mx \<and> fits_u32 (length bs)
           | BytesNoParams \<Rightarrow> fits_u32 (length bs))
      | _ \<Rightarrow> False)"
| "encodable (XLiteral x) v = (v = x)"
| "encodable (XOptional t) v = (v = VUndef \<or> encodable t v)"
| "encodable (XNullable t) v = (v = VNull \<or> encodable t v)"
| "encodable (XArray t maxLength) v =
     (case v of
        VArr xs \<Rightarrow>
          list_all (encodable t) xs \<and> fits_u32 (length xs) \<and>
          (case maxLength of Some mx \<Rightarrow> length xs \<le> mx | None \<Rightarrow> True)
      | _ \<Rightarrow> False)"
| "encodable (XStruct shape) v =
     (case v of
        VObj props \<Rightarrow>
          distinct (map fst shape) \<and>
          list_all (\<lambda>key. key \<in> set (map fst shape)) (map fst props) \<and>
          list_all (\<lambda>(key, t). encodable t (obj_get props key)) shape
      | _ \<Rightarrow> False)"
| "encodable (XTuple shape) v =
     (case v of
        VArr xs \<Rightarrow>
          length xs = length shape \<and>
          list_all (\<lambda>(i, t). encodable t (arr_get xs i)) (zip [0..<length shape] shape)
      | _ \<Rightarrow> False)"
| "encodable (XTaggedUnion shape) v =
     (case tagged v of
        Some (tag, x) \<Rightarrow>
          distinct (map fst shape) \<and> length shape \<le> 256 \<and>
          list_ex (\<lambda>(key, t). key = tag \<and> encodable t x) shape
      | None \<Rightarrow> False)"
| "encodable (XDiscriminatedUnion tag schemas) v =
     (case v of
        VObj props \<Rightarrow>
          length schemas \<le> 256 \<and>
          list_ex (\<lambda>(i, t). indexOf_strict (map (\<lambda>s. literal_at (build s) tag) schemas)
                                (obj_get props tag) = Some i
                            \<and> encodable t v)
            (zip [0..<length schemas] schemas)
      | _ \<Rightarrow> False)"
| "encodable (XEnvelope t) v =
     (encodable t v \<and>
      (case encode (build t) v of Inr payload \<Rightarrow> fits_u32 (length payload) | Inl x \<Rightarrow> False))"
| "encodable (XValidate t pre post) v =
     (encodable t v \<and> run_check pre v = None \<and>
      (case encode (build t) v of
         Inr bs \<Rightarrow> (case decode (build t) bs of
                      Inr v' \<Rightarrow> run_check post v' = None
                    | Inl x \<Rightarrow> False)
       | Inl x \<Rightarrow> False))"
| "encodable (XMap t enc dec) v =
     (case enc v of
        Inr u \<Rightarrow>
          encodable t u \<and>
          (case encode (build t) u of
             Inr bs \<Rightarrow> (case decode (build t) bs of
                          Inr u' \<Rightarrow> (case dec u' of Inr v' \<Rightarrow> deep_eq v' v | Inl x \<Rightarrow> False)
                        | Inl x \<Rightarrow> False)
           | Inl x \<Rightarrow> False)
      | Inl x \<Rightarrow> False)"

  by pat_completeness auto

lemma size_zip_snd: "(i, t) \<in> set (zip is ts) \<Longrightarrow> size t < Suc (size_list size ts)"
proof -
  assume "(i, t) \<in> set (zip is ts)"
  then have "t \<in> set ts" by (rule set_zip_rightD)
  then have "size t \<le> size_list size ts" by (rule size_list_estimation') simp
  then show ?thesis by simp
qed

lemma size_field: "(key, t) \<in> set shape \<Longrightarrow> size t < Suc (size_list (size_prod (\<lambda>x. 0) size) shape)"
proof -
  assume "(key, t) \<in> set shape"
  then have "size t \<le> size_list (size_prod (\<lambda>x. 0) size) shape"
    by (rule size_list_estimation') simp
  then show ?thesis by simp
qed

termination encodable
  by (relation "measure (\<lambda>(t, v). size t)") (auto simp: size_zip_snd size_field)

text \<open>\<open>map\<close> keeps the size descriptor of the codec it wraps, which measures the
  projected value. \<open>sized\<close> holds of the expressions in which \<open>map\<close> wraps fixed-size
  codecs only.\<close>

fun sized :: "cexp \<Rightarrow> bool" where
  "sized (XOptional t) = sized t"
| "sized (XNullable t) = sized t"
| "sized (XArray t maxLength) = sized t"
| "sized (XStruct shape) = list_all (\<lambda>(key, t). sized t) shape"
| "sized (XTuple shape) = list_all sized shape"
| "sized (XTaggedUnion shape) = list_all (\<lambda>(key, t). sized t) shape"
| "sized (XDiscriminatedUnion tag schemas) = list_all sized schemas"
| "sized (XEnvelope t) = sized t"
| "sized (XValidate t pre post) = sized t"
| "sized (XMap t enc dec) =
     (sized t \<and> (case codec_s (build t) of FixedSize n \<Rightarrow> True | DynamicSize f \<Rightarrow> False))"
| "sized t = True"

section \<open>What an encoder writes and what a decoder reads\<close>

text \<open>
  \<open>emits f bs\<close>: run on a growable writer, \<open>f\<close> returns normally and appends chunks that
  make up the bytes \<open>bs\<close>. \<open>at_bytes r bs\<close>: the buffer of \<open>r\<close> holds \<open>bs\<close> from the
  position of \<open>r\<close>. \<open>reads g bs y\<close>: on every reader, checked or not, that stands at
  \<open>bs\<close>, the decoder \<open>g\<close> returns \<open>y\<close> and leaves the reader past \<open>bs\<close>. \<open>rt b c v\<close>:
  the codec \<open>c\<close> writes some bytes for \<open>v\<close>, from which it reads a value deep-equal to
  \<open>v\<close>; and, when \<open>b\<close>, its size descriptor gives the number of these bytes.
\<close>

definition emits :: "wr \<Rightarrow> u8array \<Rightarrow> bool" where
  "emits f bs =
     (\<forall>bufs len. \<exists>chunks.
        f (GrowableWriter bufs len) = (None, GrowableWriter (bufs @ chunks) (len + length bs))
        \<and> concat chunks = bs)"

definition at_bytes :: "reader \<Rightarrow> u8array \<Rightarrow> bool" where
  "at_bytes r bs =
     (rpos r + length bs \<le> length (rbuf r)
      \<and> slice (rbuf r) (rpos r) (rpos r + length bs) = bs)"

definition reads :: "'a rd \<Rightarrow> u8array \<Rightarrow> 'a \<Rightarrow> bool" where
  "reads g bs y = (\<forall>r. at_bytes r bs \<longrightarrow> g r = (Inr y, advance (length bs) r))"

definition rt :: "bool \<Rightarrow> codec \<Rightarrow> val \<Rightarrow> bool" where
  "rt b c v =
     (\<exists>bs v'. emits (\<lambda>w. codec_e c w v) bs \<and> reads (codec_d c) bs v' \<and> deep_eq v' v
        \<and> (b \<longrightarrow> size_c c v = Inr (length bs)))"

section \<open>Projections used in examples\<close>

text \<open>\<open>map(Utf8, (s) => 'id:' + s, (s) => s.slice(3))\<close>: a string stored with a prefix.\<close>

definition tag_enc :: "val \<Rightarrow> error + val" where
  "tag_enc v = (case v of VStr s \<Rightarrow> Inr (VStr (''id:'' @ s)) | _ \<Rightarrow> Inl IllTyped)"

definition tag_dec :: "val \<Rightarrow> error + val" where
  "tag_dec v = (case v of VStr s \<Rightarrow> Inr (VStr (drop 3 s)) | _ \<Rightarrow> Inl IllTyped)"

section \<open>Properties of the readers\<close>






section \<open>Properties of the writers\<close>

lemma set_at_zeros:
  "length src \<le> m \<Longrightarrow>
     set_at (pre @ replicate m 0) src (length pre)
       = (None, pre @ src @ replicate (m - length src) 0)"
  by (simp add: set_at_def)

lemma padded_length: "length src \<le> n \<Longrightarrow> length (padded (n, src)) = n"
  by (simp add: padded_def)

lemma write_all_growable:
  "blocks_fit blocks \<Longrightarrow>
     write_all (block_ops blocks) (GrowableWriter bufs len)
       = (None, GrowableWriter (bufs @ map padded blocks) (len + sum_list (map fst blocks)))"
proof (induction blocks arbitrary: bufs len)
  case Nil
  then show ?case by (simp add: block_ops_def)
next
  case (Cons a blocks)
  obtain n src where a: "a = (n, src)" by (cases a)
  from Cons.prems a have fit: "length src \<le> n" "blocks_fit blocks"
    by (simp_all add: blocks_fit_def)
  have "set_at (replicate n 0) src 0 = (None, src @ replicate (n - length src) 0)"
    using set_at_zeros [of src n "[]"] fit by simp
  then show ?case
    using Cons.IH [OF fit(2), of "bufs @ [padded (n, src)]" "len + n"] a
    by (simp add: block_ops_def set_block_def padded_def add.assoc)
qed

lemma flush_loop_zeros:
  "sum_list (map length bufs) \<le> m \<Longrightarrow>
     flush_loop bufs (pre @ replicate m 0) (length pre)
       = Inr (pre @ concat bufs @ replicate (m - sum_list (map length bufs)) 0)"
proof (induction bufs arbitrary: pre m)
  case Nil
  then show ?case by simp
next
  case (Cons b bufs)
  then have le: "length b \<le> m" and rest: "sum_list (map length bufs) \<le> m - length b"
    by simp_all
  show ?case
    using Cons.IH [OF rest, of "pre @ b"] set_at_zeros [OF le, of pre]
    by (simp add: algebra_simps)
qed

lemma write_all_fixed:
  "blocks_fit blocks \<Longrightarrow> sum_list (map fst blocks) \<le> m \<Longrightarrow>
     write_all (block_ops blocks) (FixedWriter (pre @ replicate m 0) (length pre))
       = (None, FixedWriter (pre @ concat (map padded blocks)
                               @ replicate (m - sum_list (map fst blocks)) 0)
                            (length pre + sum_list (map fst blocks)))"
proof (induction blocks arbitrary: pre m)
  case Nil
  then show ?case by (simp add: block_ops_def)
next
  case (Cons a blocks)
  obtain n src where a: "a = (n, src)" by (cases a)
  from Cons.prems a have fit: "length src \<le> n" "blocks_fit blocks"
    and room: "n \<le> m" "sum_list (map fst blocks) \<le> m - n"
    by (simp_all add: blocks_fit_def)
  have le: "length src \<le> m" using fit(1) room(1) by simp
  have split: "replicate (m - length src) 0 = replicate (n - length src) 0 @ replicate (m - n) (0 :: byte)"
    using fit(1) room(1) by (simp add: replicate_add [symmetric])
  have step: "set_at (pre @ replicate m 0) src (length pre)
                = (None, (pre @ padded (n, src)) @ replicate (m - n) 0)"
    using set_at_zeros [OF le, of pre] split by (simp add: padded_def)
  have len: "length (pre @ padded (n, src)) = length pre + n"
    using fit(1) by (simp add: padded_length)
  show ?case
    using Cons.IH [OF fit(2) room(2), of "pre @ padded (n, src)"] a step len
    by (simp add: block_ops_def set_block_def add.assoc)
qed

text \<open>
  C8, as amended. For every sequence of write operations whose callbacks each copy a block of
  at most the slot's size to the offset they are handed, the fixed writer pre-allocated with
  the total size and the growable writer flush the same bytes: every block followed by zeros
  up to the size of its slot.
\<close>

theorem fixed_growable_same_output:
  "blocks_fit blocks \<Longrightarrow>
     flush_after (block_ops blocks) (writer (Some (sum_list (map fst blocks))))
       = flush_after (block_ops blocks) (writer None)
     \<and> flush_after (block_ops blocks) (writer None) = Inr (concat (map padded blocks))"
proof -
  assume fit: "blocks_fit blocks"
  let ?n = "sum_list (map fst blocks)"
  have lens: "sum_list (map length (map padded blocks)) = ?n"
    using fit by (induction blocks) (auto simp: blocks_fit_def padded_length)
  have g: "flush_after (block_ops blocks) (writer None) = Inr (concat (map padded blocks))"
    using write_all_growable [OF fit, of "[]" 0]
      flush_loop_zeros [of "map padded blocks" ?n "[]"] lens
    by (simp add: flush_after_def writer_def)
  have f: "flush_after (block_ops blocks) (writer (Some ?n)) = Inr (concat (map padded blocks))"
    using write_all_fixed [OF fit, of ?n "[]"]
    by (simp add: flush_after_def writer_def)
  from f g show ?thesis by simp
qed

theorem fixed_growable_same_output_witness:
  "flush_after (block_ops [(2, [7]), (3, [1, 2, 3])]) (writer (Some 5))
     = Inr [7, 0, 1, 2, 3]
   \<and> flush_after (block_ops [(2, [7]), (3, [1, 2, 3])]) (writer None)
     = Inr [7, 0, 1, 2, 3]"
  using fixed_growable_same_output [of "[(2, [7]), (3, [1, 2, 3])]"]
  by (simp add: blocks_fit_def padded_def)

text \<open>
  C8 as stated fails. A callback that copies more than its slot holds (a 3-byte string
  into a 2-byte fixed-width slot) overflows into the next slot of the fixed writer, which
  flushes the bytes, and throws in the growable writer, whose chunk has the slot's size.
  A callback that stores at index 0, not at its offset, makes both writers return, with
  different bytes.
\<close>

theorem fixed_growable_differ_counterexample:
  "flush_after [(2, set_block [97, 98, 99]), (1, set_block [])] (writer (Some 3))
     = Inr [97, 98, 99]
   \<and> flush_after [(2, set_block [97, 98, 99]), (1, set_block [])] (writer None)
     = Inl (RangeError ''offset is out of bounds'')
   \<and> flush_after [(1, \<lambda>b o1. (None, b[0 := 1])), (1, \<lambda>b o1. (None, b[0 := 1]))]
        (writer (Some 2)) = Inr [1, 0]
   \<and> flush_after [(1, \<lambda>b o1. (None, b[0 := 1])), (1, \<lambda>b o1. (None, b[0 := 1]))]
        (writer None) = Inr [1, 1]"
  by (simp add: flush_after_def writer_def set_block_def set_at_def numeral_2_eq_2
      numeral_3_eq_3)

section \<open>Basic facts: bytes, numbers, single reads and writes\<close>

lemma length_to_bytes_be [simp]: "length (to_bytes_be k n) = k"
  by (induction k arbitrary: n) auto

lemma from_bytes_be_snoc: "from_bytes_be (bs @ [b]) = from_bytes_be bs * 256 + unat b"
  by (simp add: from_bytes_be_def)

lemma from_bytes_be_Nil [simp]: "from_bytes_be [] = 0"
  by (simp add: from_bytes_be_def)

lemma unat_byte_of_nat: "unat (of_nat (n mod 256) :: byte) = n mod 256"
  by (simp add: unat_of_nat)

lemma from_to_bytes_be: "from_bytes_be (to_bytes_be k n) = n mod 256 ^ k"
proof (induction k arbitrary: n)
  case 0
  then show ?case by simp
next
  case (Suc k)
  have "n mod (256 * 256 ^ k) = 256 * (n div 256 mod 256 ^ k) + n mod 256"
    by (rule mod_mult2_eq)
  then show ?case
    using Suc.IH [of "n div 256"] by (simp add: from_bytes_be_snoc unat_byte_of_nat)
qed

lemma from_bytes_be_bound: "from_bytes_be bs < 256 ^ length bs"
proof (induction bs rule: rev_induct)
  case Nil
  then show ?case by simp
next
  case (snoc b bs)
  have "unat b < 256" using unsigned_less [of b, where ?'a = nat] by simp
  with snoc show ?case by (simp add: from_bytes_be_snoc)
qed


lemma length_number_bytes [simp]: "length (number_bytes k le x) = k"
  by (simp add: number_bytes_def Let_def)

lemma length_slice: "e1 \<le> length b \<Longrightarrow> length (slice b o1 e1) = e1 - o1"
  by (simp add: slice_def)

text \<open>reading a k-byte number\<close>

lemma numCodec_d_ok:
  "rpos r + k \<le> length (rbuf r) \<Longrightarrow>
     numCodec_d k (dv_get_unsigned k) en r
       = (Inr (int (from_bytes_be
             (if en = LE then rev (slice (rbuf r) (rpos r) (rpos r + k))
              else slice (rbuf r) (rpos r) (rpos r + k)))), advance k r)"
  by (cases r) (simp_all add: numCodec_d_def dv_get_unsigned_def rbuf_def rpos_def Let_def)

lemma numCodec_d_short:
  "rpos r + k > length (rbuf r) \<Longrightarrow>
     numCodec_d k (dv_get_unsigned k) en r
       = (Inl (if is_checked r then out_of_bounds k (rpos r) (length (rbuf r))
               else dv_range_error), r)"
  by (cases r) (simp_all add: numCodec_d_def dv_get_unsigned_def rbuf_def rpos_def Let_def)

lemma numCodec_e_growable:
  "numCodec_e k (dv_set k) en (GrowableWriter bufs len) x
     = (None, GrowableWriter (bufs @ [number_bytes k (en = LE) x]) (len + k))"
  by (simp add: numCodec_e_def dv_set_def)


lemma rpos_advance [simp]: "rpos (advance n r) = rpos r + n"
  by (cases r) (simp_all add: rpos_def)

lemma rbuf_advance [simp]: "rbuf (advance n r) = rbuf r"
  by (cases r) (simp_all add: rbuf_def)

lemma advance_advance [simp]: "advance m (advance n r) = advance (n + m) r"
  by (cases r) (simp_all add: add.assoc)

lemma is_checked_advance [simp]: "is_checked (advance n r) = is_checked r"
  by (cases r) simp_all

lemma rpos_reader [simp]: "rpos (reader b p) = p" "rpos (checkedReader b p) = p"
  by (simp_all add: rpos_def reader_def checkedReader_def)

lemma rbuf_reader [simp]: "rbuf (reader b p) = b" "rbuf (checkedReader b p) = b"
  by (simp_all add: rbuf_def reader_def checkedReader_def)

lemma advance_reader [simp]:
  "advance n (reader b p) = reader b (p + n)"
  "advance n (checkedReader b p) = checkedReader b (p + n)"
  by (simp_all add: reader_def checkedReader_def)

lemma length_ENC_encode [simp]: "length (ENC_encode str) = length str"
  by (simp add: ENC_encode_def)

lemma encode_single_write:
  "length src \<le> n \<Longrightarrow>
     (case writer_write n (set_block src) (writer None) of
        (Some x, w) \<Rightarrow> Inl x | (None, w) \<Rightarrow> flush w)
       = Inr (src @ replicate (n - length src) 0)"
  by (simp add: writer_def set_block_def set_at_def)

lemma reader_read_ok:
  "rpos r + n \<le> length (rbuf r) \<Longrightarrow>
     reader_read n fn r =
       (case fn (rbuf r) (rpos r) (rpos r + n) of
          Inl x \<Rightarrow> (Inl x, r)
        | Inr t \<Rightarrow> (Inr t, advance n r))"
  by (cases r) (simp_all add: rbuf_def rpos_def split: sum.splits)





lemma Uint32_d_at:
  "rpos r = p \<Longrightarrow> q = p + 4 \<Longrightarrow> q \<le> length (rbuf r) \<Longrightarrow>
     Uint32_d r = (Inr (int (from_bytes_be (slice (rbuf r) p q))), advance 4 r)"
  using numCodec_d_ok [of r 4 BE] by (auto simp: Uint32_d_def)



lemma slice_at:
  "rpos r = p \<Longrightarrow> q = p + n \<Longrightarrow> q \<le> length (rbuf r) \<Longrightarrow>
     reader_read n (\<lambda>b o1 e1. Inr (slice b o1 e1)) r = (Inr (slice (rbuf r) p q), advance n r)"
  using reader_read_ok [of r n "\<lambda>b o1 e1. Inr (slice b o1 e1)"] by auto





lemma indexOf_distinct: "distinct ys \<Longrightarrow> i < length ys \<Longrightarrow> indexOf ys (ys ! i) = Some i"
proof (induction ys arbitrary: i)
  case Nil
  then show ?case by simp
next
  case (Cons y ys)
  then show ?case by (cases i) auto
qed







section \<open>Fixed-width strings\<close>

lemma DEC_abc: "DEC_decode [97, 98, 99, 0, 0] = Inr (''abc'' @ [CHR 0x00, CHR 0x00])"
  by code_simp

text \<open>
  C7. The fixed-width string codec of width \<open>n\<close> encodes a string of at most \<open>n\<close> UTF-8
  bytes as those bytes followed by zero bytes up to \<open>n\<close>. Its decoder, on a reader with
  \<open>n\<close> bytes left, takes exactly the next \<open>n\<close> bytes, decodes them as UTF-8 and returns
  the string without its trailing NUL characters, \<open>n\<close> bytes further on (it throws, without
  advancing, when the bytes are not UTF-8). The witness is the string \<open>abc\<close> at width 5.
\<close>

theorem utf8_fixed_pads_and_strips:
  "(length (ENC_encode str) \<le> n \<longrightarrow>
      encode (utf8 (Utf8Fixed n)) (VStr str)
        = Inr (ENC_encode str @ replicate (n - length (ENC_encode str)) 0))
   \<and> (rpos r + n \<le> length (rbuf r) \<longrightarrow>
        codec_d (utf8 (Utf8Fixed n)) r =
          (case DEC_decode (slice (rbuf r) (rpos r) (rpos r + n)) of
             Inl x \<Rightarrow> (Inl x, r)
           | Inr t \<Rightarrow> (Inr (VStr (strip_nuls t)), advance n r)))"
proof (intro conjI impI)
  assume "length (ENC_encode str) \<le> n"
  then show "encode (utf8 (Utf8Fixed n)) (VStr str)
               = Inr (ENC_encode str @ replicate (n - length (ENC_encode str)) 0)"
    using encode_single_write [of "ENC_encode str" n]
    by (simp add: encode_def utf8_def)
next
  assume "rpos r + n \<le> length (rbuf r)"
  then show "codec_d (utf8 (Utf8Fixed n)) r =
          (case DEC_decode (slice (rbuf r) (rpos r) (rpos r + n)) of
             Inl x \<Rightarrow> (Inl x, r)
           | Inr t \<Rightarrow> (Inr (VStr (strip_nuls t)), advance n r))"
    by (simp add: utf8_def reader_read_ok smap_def split: sum.splits)
qed

theorem utf8_fixed_pads_and_strips_witness:
  "encode (utf8 (Utf8Fixed 5)) (VStr ''abc'') = Inr [97, 98, 99, 0, 0]
   \<and> codec_d (utf8 (Utf8Fixed 5)) (reader [97, 98, 99, 0, 0] 0)
       = (Inr (VStr ''abc''), reader [97, 98, 99, 0, 0] 5)
   \<and> decode (utf8 (Utf8Fixed 5)) [97, 98, 99, 0, 0] = Inr (VStr ''abc'')"
  using utf8_fixed_pads_and_strips [of "''abc''" 5 "reader [97, 98, 99, 0, 0] 0"]
  by (simp add: ENC_encode_def byte_of_char_def slice_def DEC_abc strip_nuls_def decode_def
      numeral_2_eq_2)

section \<open>Envelope\<close>


lemma show_nat_2: "show_nat 2 = ''2''"
  by (simp add: show_nat.simps)



section \<open>Arrays with a maximal length\<close>

lemma array_max_e:
  "codec_e (array inner (Some mx)) w (VArr xs) =
     (if length xs > mx then (Some (Error ''array too long''), w)
      else wseq (Uint32_e w (int (length xs))) (e_each (codec_e inner) xs))"
  by (simp add: array_def)

lemma array_max_d:
  "codec_d (array inner (Some mx)) r =
     rbind (Uint32_d r)
       (\<lambda>n r'. if nat n > mx
                then (Inl (Error (''array len '' @ show_nat (nat n) @ '' > '' @ show_nat mx)), r')
                else rmap VArr (d_times (nat n) (codec_d inner) r'))"
  by (simp add: array_def)

lemma show_nat_3: "show_nat 3 = ''3''"
  by (simp add: show_nat.simps)

text \<open>
  C4, as amended. An array codec with \<open>maxLength\<close> throws \<open>array too long\<close> on encoding a
  sequence longer than \<open>maxLength\<close> and leaves the writer as it was. Its decoder, on a
  buffer whose four-byte count \<open>n\<close> exceeds \<open>maxLength\<close>, throws \<open>array len n > maxLength\<close>
  after the count has been read and before any element is decoded: the reader is left four
  bytes further on.
\<close>

theorem array_maxLength_enforced:
  "(length xs > mx \<longrightarrow>
      codec_e (array inner (Some mx)) w (VArr xs) = (Some (Error ''array too long''), w)
      \<and> encode (array inner (Some mx)) (VArr xs) = Inl (Error ''array too long''))
   \<and> (rpos r + 4 \<le> length (rbuf r)
        \<and> from_bytes_be (slice (rbuf r) (rpos r) (rpos r + 4)) = n \<and> n > mx \<longrightarrow>
      codec_d (array inner (Some mx)) r
        = (Inl (Error (''array len '' @ show_nat n @ '' > '' @ show_nat mx)), advance 4 r))"
proof -
  have d: "codec_d (array inner (Some mx)) r
        = (Inl (Error (''array len '' @ show_nat n @ '' > '' @ show_nat mx)), advance 4 r)"
    if a: "rpos r + 4 \<le> length (rbuf r)
        \<and> from_bytes_be (slice (rbuf r) (rpos r) (rpos r + 4)) = n \<and> n > mx"
  proof -
    have s1: "Uint32_d r = (Inr (int n), advance 4 r)"
      using a Uint32_d_at [of r "rpos r" "rpos r + 4"] by simp
    show ?thesis
      unfolding array_max_d s1 using a by (simp add: rbind_def)
  qed
  show ?thesis
    using d by (simp add: array_max_e encode_def)
qed

theorem array_maxLength_enforced_witness:
  "codec_e (array Uint8 (Some 2)) (writer None) (VArr [VNum 1, VNum 2, VNum 3])
     = (Some (Error ''array too long''), writer None)
   \<and> encode (array Uint8 (Some 2)) (VArr [VNum 1, VNum 2, VNum 3])
     = Inl (Error ''array too long'')
   \<and> codec_d (array Uint8 (Some 2)) (reader [0, 0, 0, 3, 1, 2, 3] 0)
     = (Inl (Error ''array len 3 > 2''), reader [0, 0, 0, 3, 1, 2, 3] 4)"
  using array_maxLength_enforced
    [where xs = "[VNum 1, VNum 2, VNum 3]" and mx = 2 and inner = Uint8 and w = "writer None"
       and r = "reader [0, 0, 0, 3, 1, 2, 3] 0" and n = 3]
  by (simp add: slice_def from_bytes_be_def show_nat_3 show_nat_2)

text \<open>
  C4 as stated fails on the decoding side: the count is read by \<open>Uint32.d\<close> before it is
  compared, so the failed decode has consumed the four bytes of the count.
\<close>

theorem array_decode_consumes_prefix_counterexample:
  "\<not> (snd (codec_d (array Uint8 (Some 2)) (reader [0, 0, 0, 3, 1, 2, 3] 0))
        = reader [0, 0, 0, 3, 1, 2, 3] 0)
   \<and> codec_d (array Uint8 (Some 2)) (reader [0, 0, 0, 3, 1, 2, 3] 0)
     = (Inl (Error ''array len 3 > 2''), reader [0, 0, 0, 3, 1, 2, 3] 4)"
proof -
  have s1: "Uint32_d (reader [0, 0, 0, 3, 1, 2, 3] 0) = (Inr 3, reader [0, 0, 0, 3, 1, 2, 3] 4)"
    using Uint32_d_at [of "reader [0, 0, 0, 3, 1, 2, 3] 0" 0 4]
    by (simp add: slice_def from_bytes_be_def)
  show ?thesis
    unfolding array_max_d s1
    by (simp add: rbind_def show_nat_3 show_nat_2 reader_def)
qed

section \<open>Tagged unions\<close>








section \<open>Composing encoders and decoders\<close>

lemma emitsI:
  "(\<And>bufs len. \<exists>chunks.
        f (GrowableWriter bufs len) = (None, GrowableWriter (bufs @ chunks) (len + length bs))
        \<and> concat chunks = bs) \<Longrightarrow> emits f bs"
  by (simp add: emits_def)

lemma emitsD:
  "emits f bs \<Longrightarrow> \<exists>chunks.
        f (GrowableWriter bufs len) = (None, GrowableWriter (bufs @ chunks) (len + length bs))
        \<and> concat chunks = bs"
  by (simp add: emits_def)

lemma emits_nothing: "emits (\<lambda>w. (None, w)) []"
  by (rule emitsI) (rule exI [of _ "[]"], simp)

lemma emits_wseq:
  assumes f: "emits f a" and g: "emits g b"
  shows "emits (\<lambda>w. wseq (f w) g) (a @ b)"
proof (rule emitsI)
  fix bufs len
  from emitsD [OF f, of bufs len] obtain c1 where
    1: "f (GrowableWriter bufs len) = (None, GrowableWriter (bufs @ c1) (len + length a))"
    and c1: "concat c1 = a" by blast
  from emitsD [OF g, of "bufs @ c1" "len + length a"] obtain c2 where
    2: "g (GrowableWriter (bufs @ c1) (len + length a))
          = (None, GrowableWriter ((bufs @ c1) @ c2) (len + length a + length b))"
    and c2: "concat c2 = b" by blast
  show "\<exists>chunks. wseq (f (GrowableWriter bufs len)) g
          = (None, GrowableWriter (bufs @ chunks) (len + length (a @ b))) \<and> concat chunks = a @ b"
    using 1 2 c1 c2 by (intro exI [of _ "c1 @ c2"]) (simp add: wseq_def add.assoc)
qed

lemma sum_length_concat: "sum_list (map length chunks) = length (concat chunks)"
  by (induction chunks) auto

lemma emits_encode:
  assumes "emits (\<lambda>w. codec_e c w v) bs"
  shows "encode c v = Inr bs"
proof -
  from emitsD [OF assms, of "[]" 0] obtain chunks where
    1: "codec_e c (GrowableWriter [] 0) v = (None, GrowableWriter chunks (length bs))"
    and c: "concat chunks = bs" by auto
  have "flush_loop chunks ([] @ replicate (length bs) 0) (length ([] :: u8array))
          = Inr ([] @ concat chunks @ replicate (length bs - sum_list (map length chunks)) 0)"
    by (rule flush_loop_zeros) (simp add: sum_length_concat c)
  then have "flush (GrowableWriter chunks (length bs)) = Inr bs"
    by (simp add: sum_length_concat c)
  with 1 show ?thesis
    by (simp add: encode_def writer_def)
qed

lemma at_bytes_Nil [simp]: "at_bytes r [] = (rpos r \<le> length (rbuf r))"
  by (simp add: at_bytes_def slice_def)

lemma slice_append_split:
  "o1 + (m + n) \<le> length b \<Longrightarrow>
     slice b o1 (o1 + (m + n)) = slice b o1 (o1 + m) @ slice b (o1 + m) (o1 + m + n)"
  by (simp add: slice_def take_add drop_drop add.commute)

lemma at_bytes_append:
  "at_bytes r (a @ b) \<longleftrightarrow> at_bytes r a \<and> at_bytes (advance (length a) r) b"
proof
  assume ab: "at_bytes r (a @ b)"
  then have len: "rpos r + (length a + length b) \<le> length (rbuf r)"
    and sl: "slice (rbuf r) (rpos r) (rpos r + (length a + length b)) = a @ b"
    by (simp_all add: at_bytes_def)
  have la: "length (slice (rbuf r) (rpos r) (rpos r + length a)) = length a"
    using len by (simp add: length_slice)
  from sl slice_append_split [OF len]
  have "slice (rbuf r) (rpos r) (rpos r + length a)
          @ slice (rbuf r) (rpos r + length a) (rpos r + length a + length b) = a @ b"
    by simp
  with la have "slice (rbuf r) (rpos r) (rpos r + length a) = a"
    and "slice (rbuf r) (rpos r + length a) (rpos r + length a + length b) = b"
    by (simp_all add: append_eq_append_conv)
  with len show "at_bytes r a \<and> at_bytes (advance (length a) r) b"
    by (simp add: at_bytes_def)
next
  assume "at_bytes r a \<and> at_bytes (advance (length a) r) b"
  then have len: "rpos r + (length a + length b) \<le> length (rbuf r)"
    and a: "slice (rbuf r) (rpos r) (rpos r + length a) = a"
    and b: "slice (rbuf r) (rpos r + length a) (rpos r + length a + length b) = b"
    by (simp_all add: at_bytes_def add.assoc)
  show "at_bytes r (a @ b)"
    using len a b slice_append_split [OF len] by (simp add: at_bytes_def)
qed

lemma readsI: "(\<And>r. at_bytes r bs \<Longrightarrow> g r = (Inr y, advance (length bs) r)) \<Longrightarrow> reads g bs y"
  by (simp add: reads_def)

lemma readsD: "reads g bs y \<Longrightarrow> at_bytes r bs \<Longrightarrow> g r = (Inr y, advance (length bs) r)"
  by (simp add: reads_def)

lemma advance_0 [simp]: "advance 0 r = r"
  by (cases r) simp_all

lemma reads_return: "reads (\<lambda>r. (Inr y, r)) [] y"
  by (rule readsI) simp

lemma reads_rbind:
  assumes f: "reads f a x" and g: "reads (g x) b y"
  shows "reads (\<lambda>r. rbind (f r) g) (a @ b) y"
proof (rule readsI)
  fix r
  assume "at_bytes r (a @ b)"
  then have 1: "at_bytes r a" and 2: "at_bytes (advance (length a) r) b"
    by (simp_all add: at_bytes_append)
  show "rbind (f r) g = (Inr y, advance (length (a @ b)) r)"
    using readsD [OF f 1] readsD [OF g 2] by (simp add: rbind_def)
qed

lemma reads_rmap:
  assumes "reads f a x"
  shows "reads (\<lambda>r. rmap h (f r)) a (h x)"
  by (rule readsI) (simp add: readsD [OF assms] rmap_def)

lemma reads_decode:
  assumes "reads (codec_d c) bs y"
  shows "decode c bs = Inr y" and "tryDecode c bs = Ok y"
proof -
  have "at_bytes (reader bs 0) bs" and "at_bytes (checkedReader bs 0) bs"
    by (simp_all add: at_bytes_def slice_def)
  then show "decode c bs = Inr y" and "tryDecode c bs = Ok y"
    using readsD [OF assms] by (simp_all add: decode_def tryDecode_def)
qed

lemma rt_weaken: "rt b c v \<Longrightarrow> rt False c v"
  by (auto simp: rt_def)

section \<open>Single writes and reads\<close>

lemma emits_write_block:
  "length src \<le> n \<Longrightarrow> emits (writer_write n (set_block src)) (src @ replicate (n - length src) 0)"
  by (rule emitsI, rule exI [of _ "[src @ replicate (n - length src) 0]"])
    (simp add: set_block_def set_at_def)

lemma emits_write_exact: "emits (writer_write (length src) (set_block src)) src"
  using emits_write_block [of src "length src"] by simp

lemma emits_num:
  "emits (\<lambda>w. numCodec_e k (dv_set k) en w x) (number_bytes k (en = LE) x)"
  by (rule emitsI, rule exI [of _ "[number_bytes k (en = LE) x]"])
    (simp add: numCodec_e_growable)

lemma emits_num8:
  "emits (\<lambda>w. numCodec_e 1 (\<lambda>v o1 x le. dv_set 1 v o1 x False) en w x) (number_bytes 1 False x)"
  by (rule emitsI, rule exI [of _ "[number_bytes 1 False x]"])
    (simp add: numCodec_e_def dv_set_def)

lemma reads_read:
  assumes "length bs = n"
    and "\<And>b o1. o1 + n \<le> length b \<Longrightarrow> slice b o1 (o1 + n) = bs \<Longrightarrow> fn b o1 (o1 + n) = Inr y"
  shows "reads (reader_read n fn) bs y"
proof (rule readsI)
  fix r
  assume "at_bytes r bs"
  then have 1: "rpos r + n \<le> length (rbuf r)" and 2: "slice (rbuf r) (rpos r) (rpos r + n) = bs"
    using assms(1) by (simp_all add: at_bytes_def)
  show "reader_read n fn r = (Inr y, advance (length bs) r)"
    using reader_read_ok [OF 1, of fn] assms(2) [OF 1 2] assms(1) by simp
qed

lemma from_number_bytes:
  "from_bytes_be (if le then rev (number_bytes k le x) else number_bytes k le x)
     = nat (x mod 2 ^ (8 * k))"
proof -
  have "(256::nat) ^ k = 2 ^ (8 * k)"
    by (simp add: power_mult)
  moreover have "nat (x mod 2 ^ (8 * k)) < 2 ^ (8 * k)"
    by (simp add: nat_less_iff)
  ultimately show ?thesis
    by (simp add: number_bytes_def Let_def from_to_bytes_be)
qed

lemma reads_unsigned:
  assumes "unsigned_fits k x"
  shows "reads (numCodec_d k (dv_get_unsigned k) en) (number_bytes k (en = LE) x) x"
proof (rule readsI)
  fix r
  assume "at_bytes r (number_bytes k (en = LE) x)"
  then have 1: "rpos r + k \<le> length (rbuf r)"
    and 2: "slice (rbuf r) (rpos r) (rpos r + k) = number_bytes k (en = LE) x"
    by (simp_all add: at_bytes_def)
  have nn: "0 \<le> x" and m: "x mod 2 ^ (8 * k) = x"
    using assms by (simp_all add: unsigned_fits_def)
  show "numCodec_d k (dv_get_unsigned k) en r
               = (Inr x, advance (length (number_bytes k (en = LE) x)) r)"
    using numCodec_d_ok [OF 1, of en] 2 from_number_bytes [of "en = LE" k x] nn m
    by (cases "en = LE") simp_all
qed


lemma signed_mod:
  assumes "signed_fits k x" and "0 < k"
  shows "(if x mod 2 ^ (8 * k) \<ge> 2 ^ (8 * k - 1)
          then x mod 2 ^ (8 * k) - 2 ^ (8 * k) else x mod 2 ^ (8 * k)) = x"
proof -
  have "8 * k = Suc (8 * k - 1)"
    using assms(2) by simp
  then have p: "(2::int) ^ (8 * k) = 2 * 2 ^ (8 * k - 1)"
    by (metis power_Suc)
  have lo: "- (2 ^ (8 * k - 1)) \<le> x" and hi: "x < 2 ^ (8 * k - 1)"
    using assms(1) by (simp_all add: signed_fits_def)
  have pos: "(0::int) < 2 ^ (8 * k - 1)" by simp
  show ?thesis
  proof (cases "0 \<le> x")
    case True
    then have "x mod 2 ^ (8 * k) = x"
      using hi p pos by (intro mod_pos_pos_trivial) simp_all
    then show ?thesis using True hi by simp
  next
    case False
    then have neg: "x < 0" by simp
    have "(x + 2 ^ (8 * k)) mod 2 ^ (8 * k) = x + 2 ^ (8 * k)"
      using lo neg p pos by (intro mod_pos_pos_trivial) simp_all
    then have "x mod 2 ^ (8 * k) = x + 2 ^ (8 * k)"
      by simp
    then show ?thesis using lo neg p pos by simp
  qed
qed

lemma reads_signed:
  assumes "signed_fits k x" and "0 < k"
  shows "reads (numCodec_d k (dv_get_signed k) en) (number_bytes k (en = LE) x) x"
proof (rule readsI)
  fix r
  assume "at_bytes r (number_bytes k (en = LE) x)"
  then have 1: "rpos r + k \<le> length (rbuf r)"
    and 2: "slice (rbuf r) (rpos r) (rpos r + k) = number_bytes k (en = LE) x"
    by (simp_all add: at_bytes_def)
  have "int (nat (x mod 2 ^ (8 * k))) = x mod 2 ^ (8 * k)"
    by simp
  then have u: "dv_get_unsigned k (rbuf r) (rpos r) (en = LE) = Inr (x mod 2 ^ (8 * k))"
    using 1 2 from_number_bytes [of "en = LE" k x]
    by (cases "en = LE") (simp_all add: dv_get_unsigned_def Let_def)
  have "dv_get_signed k (rbuf r) (rpos r) (en = LE) = Inr x"
    unfolding dv_get_signed_def u sbind_def using signed_mod [OF assms] by simp
  then show "numCodec_d k (dv_get_signed k) en r
               = (Inr x, advance (length (number_bytes k (en = LE) x)) r)"
    using reader_read_ok [OF 1, of "\<lambda>b o1 e1. dv_get_signed k b o1 (en = LE)"]
    by (simp add: numCodec_d_def)
qed

lemma reads_unsigned8:
  assumes "unsigned_fits 1 x"
  shows "reads (numCodec_d 1 (\<lambda>v o1 le. dv_get_unsigned 1 v o1 False) en) (number_bytes 1 False x) x"
proof -
  have "numCodec_d 1 (\<lambda>v o1 le. dv_get_unsigned 1 v o1 False) en
          = numCodec_d 1 (dv_get_unsigned 1) BE"
    by (rule ext) (simp add: numCodec_d_def)
  then show ?thesis
    using reads_unsigned [OF assms, of BE] by simp
qed

lemma reads_signed8:
  assumes "signed_fits 1 x"
  shows "reads (numCodec_d 1 (\<lambda>v o1 le. dv_get_signed 1 v o1 False) en) (number_bytes 1 False x) x"
proof -
  have "numCodec_d 1 (\<lambda>v o1 le. dv_get_signed 1 v o1 False) en
          = numCodec_d 1 (dv_get_signed 1) BE"
    by (rule ext) (simp add: numCodec_d_def)
  then show ?thesis
    using reads_signed [OF assms, of BE] by simp
qed

section \<open>Round trips of the number and boolean codecs\<close>

lemma fixed_s_simps [simp]:
  "fixed_s Uint8 = 1" "fixed_s Uint16 = 2" "fixed_s Uint32 = 4"
  by (simp_all add: fixed_s_def Uint8_def uint8_def Uint16_def uint16_def Uint32_def uint32_def
      numCodec_def)

lemma deep_eq_refl [simp]: "deep_eq v v"
proof (induction v)
  case (VArr xs)
  then show ?case
    by (auto simp: list_all_iff in_set_zip)
next
  case (VObj ps)
  have "deep_eq (obj_get ps key) (obj_get ps key)" for key
  proof (cases "map_of ps key")
    case None
    then show ?thesis by (simp add: obj_get_def)
  next
    case (Some x)
    then have "(key, x) \<in> set ps" by (rule map_of_SomeD)
    then show ?thesis using VObj Some by (auto simp: obj_get_def)
  qed
  then show ?case by (simp add: list_all_iff)
qed simp_all

lemma rtI:
  "emits (\<lambda>w. codec_e c w v) bs \<Longrightarrow> reads (codec_d c) bs v' \<Longrightarrow> deep_eq v' v \<Longrightarrow>
     (b \<Longrightarrow> size_c c v = Inr (length bs)) \<Longrightarrow> rt b c v"
  by (auto simp: rt_def)

lemma rt_numCodec_unsigned:
  assumes "unsigned_fits k x"
  shows "rt b (numCodec k (dv_get_unsigned k) (dv_set k) en) (VNum x)"
  by (rule rtI [of _ _ "number_bytes k (en = LE) x" "VNum x"])
    (simp_all add: numCodec_def emits_num reads_rmap [OF reads_unsigned [OF assms]] size_c_def)

lemma rt_numCodec_signed:
  assumes "signed_fits k x" and "0 < k"
  shows "rt b (numCodec k (dv_get_signed k) (dv_set k) en) (VNum x)"
  by (rule rtI [of _ _ "number_bytes k (en = LE) x" "VNum x"])
    (simp_all add: numCodec_def emits_num reads_rmap [OF reads_signed [OF assms]] size_c_def)

lemma rt_bigNumCodec_unsigned:
  assumes "unsigned_fits k x"
  shows "rt b (bigNumCodec k (dv_get_unsigned k) (dv_set k) en) (VBig x)"
  by (rule rtI [of _ _ "number_bytes k (en = LE) x" "VBig x"])
    (simp_all add: bigNumCodec_def emits_num reads_rmap [OF reads_unsigned [OF assms]] size_c_def)

lemma rt_bigNumCodec_signed:
  assumes "signed_fits k x" and "0 < k"
  shows "rt b (bigNumCodec k (dv_get_signed k) (dv_set k) en) (VBig x)"
  by (rule rtI [of _ _ "number_bytes k (en = LE) x" "VBig x"])
    (simp_all add: bigNumCodec_def emits_num reads_rmap [OF reads_signed [OF assms]] size_c_def)

lemma rt_Uint8:
  assumes "unsigned_fits 1 x"
  shows "rt b Uint8 (VNum x)"
  by (rule rtI [of _ _ "number_bytes 1 False x" "VNum x"])
    (simp_all add: Uint8_def uint8_def numCodec_def emits_num8
      reads_rmap [OF reads_unsigned8 [OF assms]] size_c_def del: One_nat_def)

lemma rt_Int8:
  assumes "signed_fits 1 x"
  shows "rt b Int8 (VNum x)"
  by (rule rtI [of _ _ "number_bytes 1 False x" "VNum x"])
    (simp_all add: Int8_def int8_def numCodec_def emits_num8
      reads_rmap [OF reads_signed8 [OF assms]] size_c_def del: One_nat_def)

lemma emits_Uint8_e: "emits (\<lambda>w. Uint8_e w x) (number_bytes 1 False x)"
  by (simp add: Uint8_e_def emits_num8 del: One_nat_def)

lemma reads_Uint8_d: "unsigned_fits 1 x \<Longrightarrow> reads Uint8_d (number_bytes 1 False x) x"
  by (simp add: Uint8_d_def reads_unsigned8 del: One_nat_def)

lemma emits_Uint16_e: "emits (\<lambda>w. Uint16_e w x) (number_bytes 2 False x)"
  using emits_num [of 2 BE x] by (simp add: Uint16_e_def)

lemma reads_Uint16_d: "unsigned_fits 2 x \<Longrightarrow> reads Uint16_d (number_bytes 2 False x) x"
  using reads_unsigned [of 2 x BE] by (simp add: Uint16_d_def)

lemma emits_Uint32_e: "emits (\<lambda>w. Uint32_e w x) (number_bytes 4 False x)"
  using emits_num [of 4 BE x] by (simp add: Uint32_e_def)

lemma reads_Uint32_d: "unsigned_fits 4 x \<Longrightarrow> reads Uint32_d (number_bytes 4 False x) x"
  using reads_unsigned [of 4 x BE] by (simp add: Uint32_d_def)

lemma unsigned_fits_length: "fits_u32 n \<Longrightarrow> unsigned_fits 4 (int n)"
proof -
  assume "fits_u32 n"
  then have "int n < int (2 ^ 32)"
    unfolding fits_u32_def by (rule iffD2 [OF of_nat_less_iff])
  then show ?thesis by (simp add: unsigned_fits_def)
qed

lemma rt_Bool: "rt b Bool (VBool t)"
proof (rule rtI [of _ _ "number_bytes 1 False (if t then 1 else 0)" "VBool t"])
  show "emits (\<lambda>w. codec_e Bool w (VBool t)) (number_bytes 1 False (if t then 1 else 0))"
    using emits_Uint8_e [of "if t then 1 else 0"] by (simp add: Bool_def)
  have "unsigned_fits 1 (if t then 1 else 0)"
    by (simp add: unsigned_fits_def)
  from reads_rmap [OF reads_Uint8_d [OF this], of "\<lambda>x. VBool (x = 1)"]
  show "reads (codec_d Bool) (number_bytes 1 False (if t then 1 else 0)) (VBool t)"
    by (cases t) (simp_all add: Bool_def del: One_nat_def)
qed (simp_all add: Bool_def size_c_def)

section \<open>Round trips of the string codecs\<close>

lemma char_of_byte_of_char [simp]: "char_of_byte (byte_of_char c) = c"
proof -
  have "of_char c < (256::nat)" by simp
  then have "unat (of_nat (of_char c :: nat) :: byte) = of_char c"
    by (simp add: unat_of_nat)
  then show ?thesis
    by (simp add: char_of_byte_def byte_of_char_def)
qed

lemma map_char_of_byte_ENC [simp]: "map char_of_byte (ENC_encode str) = str"
  by (simp add: ENC_encode_def comp_def)

lemma DEC_ENC: "str_ok str \<Longrightarrow> DEC_decode (ENC_encode str) = Inr str"
  by (simp add: str_ok_def DEC_decode_def)

lemma utf8_step_zero: "utf8_step 0 (Some utf8_start) = Some utf8_start"
  by (simp add: utf8_start_def)

lemma fold_utf8_zeros: "fold utf8_step (replicate k 0) (Some utf8_start) = Some utf8_start"
proof (induction k)
  case 0
  then show ?case by simp
next
  case (Suc k)
  have "fold utf8_step (replicate (Suc k) 0) (Some utf8_start)
          = fold utf8_step (replicate k 0) (utf8_step 0 (Some utf8_start))"
    by (simp only: replicate_Suc fold_simps)
  with Suc show ?case by (simp only: utf8_step_zero)
qed

lemma valid_utf8_append_zeros: "valid_utf8 a \<Longrightarrow> valid_utf8 (a @ replicate k 0)"
  by (simp only: valid_utf8_def fold_append comp_apply fold_utf8_zeros)

lemma has_bom_append_zeros:
  assumes "\<not> has_bom a"
  shows "\<not> has_bom (a @ replicate k 0)"
proof
  assume h: "has_bom (a @ replicate k 0)"
  then have t: "take 3 (a @ replicate k 0) = [0xEF, 0xBB, 0xBF]"
    by (simp add: has_bom_def)
  show False
  proof (cases "3 \<le> length a")
    case True
    with t assms show False by (simp add: has_bom_def)
  next
    case False
    from t have "length (take 3 (a @ replicate k 0)) = 3" by simp
    then have len: "3 \<le> length a + k" by simp
    have "take 3 (a @ replicate k 0) ! 2 = (a @ replicate k 0) ! 2"
      by (rule nth_take) simp
    with t have "(a @ replicate k 0) ! 2 = 0xBF" by simp
    with False len have "(0 :: byte) = 0xBF"
      by (simp add: nth_append)
    then show False by simp
  qed
qed

lemma char_of_byte_0 [simp]: "char_of_byte 0 = CHR 0x00"
  by code_simp

lemma dropWhile_replicate_append: "P c \<Longrightarrow> dropWhile P (replicate k c @ ys) = dropWhile P ys"
  by (induction k) simp_all

lemma strip_nuls_append_nuls: "strip_nuls (str @ replicate k (CHR 0x00)) = strip_nuls str"
  by (simp add: strip_nuls_def dropWhile_replicate_append)

lemma DEC_ENC_padded:
  assumes "str_ok str"
  shows "DEC_decode (ENC_encode str @ replicate k 0) = Inr (str @ replicate k (CHR 0x00))"
  using assms valid_utf8_append_zeros [of "ENC_encode str" k]
    has_bom_append_zeros [of "ENC_encode str" k]
  by (simp add: str_ok_def DEC_decode_def)

lemma emits_length_prefixed:
  "emits (\<lambda>w. wseq (Uint32_e w (int (length src))) (writer_write (length src) (set_block src)))
     (number_bytes 4 False (int (length src)) @ src)"
  by (rule emits_wseq [OF emits_Uint32_e emits_write_exact])

lemma reads_length_prefixed:
  assumes "fits_u32 (length src)" and "\<And>b o1 e1. slice b o1 e1 = src \<Longrightarrow> fn b o1 e1 = Inr y"
  shows "reads (\<lambda>r. rbind (Uint32_d r) (\<lambda>n. reader_read (nat n) fn))
           (number_bytes 4 False (int (length src)) @ src) y"
proof (rule reads_rbind [OF reads_Uint32_d [OF unsigned_fits_length [OF assms(1)]]])
  show "reads (reader_read (nat (int (length src))) fn) src y"
    by (rule reads_read) (simp_all add: assms(2))
qed

lemma rt_Utf8_parts:
  assumes "str_ok str" and "fits_u32 (length str)"
  shows "emits (\<lambda>w. codec_e Utf8 w (VStr str))
           (number_bytes 4 False (int (length str)) @ ENC_encode str)"
    and "reads (codec_d Utf8) (number_bytes 4 False (int (length str)) @ ENC_encode str) (VStr str)"
    and "size_c Utf8 (VStr str) = Inr (length (number_bytes 4 False (int (length str)) @ ENC_encode str))"
proof -
  show "emits (\<lambda>w. codec_e Utf8 w (VStr str))
           (number_bytes 4 False (int (length str)) @ ENC_encode str)"
    using emits_length_prefixed [of "ENC_encode str"] by (simp add: Utf8_def Let_def)
  have "reads (\<lambda>r. rbind (Uint32_d r)
                 (\<lambda>n. reader_read (nat n) (\<lambda>b o1 e1. smap VStr (DEC_decode (slice b o1 e1)))))
           (number_bytes 4 False (int (length (ENC_encode str))) @ ENC_encode str) (VStr str)"
    using assms by (intro reads_length_prefixed) (simp_all add: DEC_ENC smap_def)
  then show "reads (codec_d Utf8) (number_bytes 4 False (int (length str)) @ ENC_encode str)
               (VStr str)"
    by (simp add: Utf8_def)
  show "size_c Utf8 (VStr str)
          = Inr (length (number_bytes 4 False (int (length str)) @ ENC_encode str))"
    by (simp add: Utf8_def size_c_def)
qed

lemma rt_Utf8: "str_ok str \<Longrightarrow> fits_u32 (length str) \<Longrightarrow> rt b Utf8 (VStr str)"
  by (rule rtI [OF rt_Utf8_parts(1) rt_Utf8_parts(2)]) (simp_all add: rt_Utf8_parts(3))

lemma rt_utf8_max:
  assumes "str_ok str" and "fits_u32 (length str)" and "\<not> utf8_too_long maxBytes (length str)"
  shows "rt b (utf8 (Utf8MaxBytes maxBytes)) (VStr str)"
proof (rule rtI [of _ _ "number_bytes 4 False (int (length str)) @ ENC_encode str" "VStr str"])
  show "emits (\<lambda>w. codec_e (utf8 (Utf8MaxBytes maxBytes)) w (VStr str))
           (number_bytes 4 False (int (length str)) @ ENC_encode str)"
    using emits_length_prefixed [of "ENC_encode str"] assms(3) by (simp add: utf8_def Let_def)
  have "reads (\<lambda>r. rbind (Uint32_d r)
                 (\<lambda>n. reader_read (nat n) (\<lambda>b o1 e1. smap VStr (DEC_decode (slice b o1 e1)))))
           (number_bytes 4 False (int (length (ENC_encode str))) @ ENC_encode str) (VStr str)"
    using assms by (intro reads_length_prefixed) (simp_all add: DEC_ENC smap_def)
  then have r: "reads (codec_d Utf8) (number_bytes 4 False (int (length str)) @ ENC_encode str)
               (VStr str)"
    by (simp add: Utf8_def)
  show "reads (codec_d (utf8 (Utf8MaxBytes maxBytes)))
          (number_bytes 4 False (int (length str)) @ ENC_encode str) (VStr str)"
  proof (rule readsI)
    fix r
    assume a: "at_bytes r (number_bytes 4 False (int (length str)) @ ENC_encode str)"
    then have 1: "at_bytes r (number_bytes 4 False (int (length str)))"
      and 2: "at_bytes (advance 4 r) (ENC_encode str)"
      by (simp_all add: at_bytes_append)
    have u: "Uint32_d r = (Inr (int (length str)), advance 4 r)"
      using readsD [OF reads_Uint32_d [OF unsigned_fits_length [OF assms(2)]] 1] by simp
    have "reads (reader_read (length str) (\<lambda>b o1 e1. smap VStr (DEC_decode (slice b o1 e1))))
            (ENC_encode str) (VStr str)"
      using assms(1) by (intro reads_read) (simp_all add: DEC_ENC smap_def)
    from readsD [OF this 2]
    show "codec_d (utf8 (Utf8MaxBytes maxBytes)) r
            = (Inr (VStr str),
               advance (length (number_bytes 4 False (int (length str)) @ ENC_encode str)) r)"
      using assms(3) u by (simp add: utf8_def rbind_def)
  qed
qed (simp_all add: utf8_def size_c_def Let_def assms(3))

lemma rt_utf8_fixed:
  assumes "str_ok str" and "length str \<le> n" and "strip_nuls str = str"
  shows "rt b (utf8 (Utf8Fixed n)) (VStr str)"
proof (rule rtI [of _ _ "ENC_encode str @ replicate (n - length (ENC_encode str)) 0" "VStr str"])
  show "emits (\<lambda>w. codec_e (utf8 (Utf8Fixed n)) w (VStr str))
          (ENC_encode str @ replicate (n - length (ENC_encode str)) 0)"
    using emits_write_block [of "ENC_encode str" n] assms(2) by (simp add: utf8_def)
  have "reads (reader_read n (\<lambda>b o1 e1. smap (\<lambda>t. VStr (strip_nuls t))
                                  (DEC_decode (slice b o1 (o1 + n)))))
          (ENC_encode str @ replicate (n - length (ENC_encode str)) 0) (VStr str)"
    using assms
    by (intro reads_read) (simp_all add: DEC_ENC_padded smap_def strip_nuls_append_nuls)
  then show "reads (codec_d (utf8 (Utf8Fixed n)))
          (ENC_encode str @ replicate (n - length (ENC_encode str)) 0) (VStr str)"
    by (simp add: utf8_def)
qed (simp_all add: utf8_def size_c_def assms(2))

section \<open>Round trips of byte arrays, literals, JSON, optional and nullable\<close>

lemma rt_Bytes: 
  assumes "fits_u32 (length bs)"
  shows "rt b Bytes (VBytes bs)"
proof (rule rtI [of _ _ "number_bytes 4 False (int (length bs)) @ bs" "VBytes bs"])
  show "emits (\<lambda>w. codec_e Bytes w (VBytes bs)) (number_bytes 4 False (int (length bs)) @ bs)"
    using emits_length_prefixed [of bs] by (simp add: Bytes_def)
  have "reads (\<lambda>r. rbind (Uint32_d r)
                 (\<lambda>n. reader_read (nat n) (\<lambda>b o1 e1. Inr (VBytes (slice b o1 e1)))))
           (number_bytes 4 False (int (length bs)) @ bs) (VBytes bs)"
    using assms by (intro reads_length_prefixed) simp_all
  then show "reads (codec_d Bytes) (number_bytes 4 False (int (length bs)) @ bs) (VBytes bs)"
    by (simp add: Bytes_def)
qed (simp_all add: Bytes_def size_c_def)

lemma rt_bytes_max:
  assumes "fits_u32 (length bs)" and "length bs \<le> mx"
  shows "rt b (bytes (BytesMax mx)) (VBytes bs)"
proof (rule rtI [of _ _ "number_bytes 4 False (int (length bs)) @ bs" "VBytes bs"])
  show "emits (\<lambda>w. codec_e (bytes (BytesMax mx)) w (VBytes bs))
          (number_bytes 4 False (int (length bs)) @ bs)"
    using emits_length_prefixed [of bs] assms(2) by (simp add: bytes_def)
  show "reads (codec_d (bytes (BytesMax mx))) (number_bytes 4 False (int (length bs)) @ bs)
          (VBytes bs)"
  proof (rule readsI)
    fix r
    assume a: "at_bytes r (number_bytes 4 False (int (length bs)) @ bs)"
    then have 1: "at_bytes r (number_bytes 4 False (int (length bs)))"
      and 2: "at_bytes (advance 4 r) bs"
      by (simp_all add: at_bytes_append)
    have u: "Uint32_d r = (Inr (int (length bs)), advance 4 r)"
      using readsD [OF reads_Uint32_d [OF unsigned_fits_length [OF assms(1)]] 1] by simp
    have "reads (reader_read (length bs) (\<lambda>b o1 e1. Inr (VBytes (slice b o1 e1)))) bs (VBytes bs)"
      by (intro reads_read) simp_all
    from readsD [OF this 2]
    show "codec_d (bytes (BytesMax mx)) r
            = (Inr (VBytes bs),
               advance (length (number_bytes 4 False (int (length bs)) @ bs)) r)"
      using assms(2) u by (simp add: bytes_def rbind_def)
  qed
qed (use assms(2) in \<open>simp_all add: bytes_def size_c_def\<close>)

lemma rt_bytes_fixed: "rt b (bytes (BytesFixed (length bs))) (VBytes bs)"
proof (rule rtI [of _ _ bs "VBytes bs"])
  show "emits (\<lambda>w. codec_e (bytes (BytesFixed (length bs))) w (VBytes bs)) bs"
    using emits_write_exact [of bs] by (simp add: bytes_def)
  have "reads (reader_read (length bs) (\<lambda>b o1 e1. Inr (VBytes (slice b o1 e1)))) bs (VBytes bs)"
    by (intro reads_read) simp_all
  then show "reads (codec_d (bytes (BytesFixed (length bs)))) bs (VBytes bs)"
    by (simp add: bytes_def)
qed (simp_all add: bytes_def size_c_def)

lemma rt_literal: "rt b (literal x) x"
  by (rule rtI [of _ _ "[]" x])
    (simp_all add: literal_def emits_nothing reads_return size_c_def)

lemma rt_json:
  assumes "stringify v = Inr str" and "str_ok str" and "fits_u32 (length str)"
    and "parse str = Inr v'" and "deep_eq v' v"
  shows "rt b (json stringify parse) v"
proof (rule rtI [of _ _ "number_bytes 4 False (int (length str)) @ ENC_encode str" v'])
  show "emits (\<lambda>w. codec_e (json stringify parse) w v)
          (number_bytes 4 False (int (length str)) @ ENC_encode str)"
    using rt_Utf8_parts(1) [OF assms(2,3)] assms(1) by (simp add: json_def)
  have "reads (\<lambda>r. rbind (codec_d Utf8 r)
                (\<lambda>t r'. case t of VStr u \<Rightarrow> (parse u, r') | _ \<Rightarrow> (Inl IllTyped, r')))
          (number_bytes 4 False (int (length str)) @ ENC_encode str) v'"
  proof (rule readsI)
    fix r
    assume "at_bytes r (number_bytes 4 False (int (length str)) @ ENC_encode str)"
    from readsD [OF rt_Utf8_parts(2) [OF assms(2,3)] this]
    show "rbind (codec_d Utf8 r)
            (\<lambda>t r'. case t of VStr u \<Rightarrow> (parse u, r') | _ \<Rightarrow> (Inl IllTyped, r'))
          = (Inr v', advance (length (number_bytes 4 False (int (length str)) @ ENC_encode str)) r)"
      using assms(4) by (simp add: rbind_def)
  qed
  then show "reads (codec_d (json stringify parse))
               (number_bytes 4 False (int (length str)) @ ENC_encode str) v'"
    by (simp add: json_def)
  show "deep_eq v' v" by (rule assms(5))
  show "size_c (json stringify parse) v
          = Inr (length (number_bytes 4 False (int (length str)) @ ENC_encode str))"
    using assms(1) by (simp add: json_def size_c_def sbind_def)
qed

lemma rt_optional_absent: "rt b (optional inner) VUndef"
proof (rule rtI [of _ _ "number_bytes 1 False 0" VUndef])
  show "emits (\<lambda>w. codec_e (optional inner) w VUndef) (number_bytes 1 False 0)"
    using emits_Uint8_e [of 0] by (simp add: optional_def)
  have u: "unsigned_fits 1 0" by (simp add: unsigned_fits_def)
  show "reads (codec_d (optional inner)) (number_bytes 1 False 0) VUndef"
  proof (rule readsI)
    fix r
    assume "at_bytes r (number_bytes 1 False 0)"
    from readsD [OF reads_Uint8_d [OF u] this]
    show "codec_d (optional inner) r = (Inr VUndef, advance (length (number_bytes 1 False 0)) r)"
      by (simp add: optional_def rbind_def)
  qed
qed (simp_all add: optional_def size_c_def)

lemma rt_optional_present:
  assumes "rt b inner v" and "v \<noteq> VUndef"
  shows "rt b (optional inner) v"
proof -
  from assms(1) obtain bs v' where e: "emits (\<lambda>w. codec_e inner w v) bs"
    and r: "reads (codec_d inner) bs v'" and d: "deep_eq v' v"
    and s: "b \<longrightarrow> size_c inner v = Inr (length bs)"
    by (auto simp: rt_def)
  show ?thesis
  proof (rule rtI [of _ _ "number_bytes 1 False 1 @ bs" v'])
    show "emits (\<lambda>w. codec_e (optional inner) w v) (number_bytes 1 False 1 @ bs)"
      using emits_wseq [OF emits_Uint8_e [of 1] e] assms(2) by (simp add: optional_def)
    have u: "unsigned_fits 1 1" by (simp add: unsigned_fits_def)
    show "reads (codec_d (optional inner)) (number_bytes 1 False 1 @ bs) v'"
    proof (rule readsI)
      fix r
      assume "at_bytes r (number_bytes 1 False 1 @ bs)"
      then have 1: "at_bytes r (number_bytes 1 False 1)" and 2: "at_bytes (advance 1 r) bs"
        by (simp_all add: at_bytes_append)
      from readsD [OF reads_Uint8_d [OF u] 1] readsD [OF r 2]
      show "codec_d (optional inner) r = (Inr v', advance (length (number_bytes 1 False 1 @ bs)) r)"
        by (simp add: optional_def rbind_def)
    qed
    show "deep_eq v' v" by (rule d)
    show "size_c (optional inner) v = Inr (length (number_bytes 1 False 1 @ bs))" if b
      using that s assms(2) by (simp add: optional_def size_c_def sbind_def)
  qed
qed

lemma rt_optional: "v = VUndef \<or> rt b inner v \<Longrightarrow> rt b (optional inner) v"
  using rt_optional_absent rt_optional_present by blast

lemma rt_nullable_absent: "rt b (nullable inner) VNull"
proof (rule rtI [of _ _ "number_bytes 1 False 0" VNull])
  show "emits (\<lambda>w. codec_e (nullable inner) w VNull) (number_bytes 1 False 0)"
    using emits_Uint8_e [of 0] by (simp add: nullable_def)
  have u: "unsigned_fits 1 0" by (simp add: unsigned_fits_def)
  show "reads (codec_d (nullable inner)) (number_bytes 1 False 0) VNull"
  proof (rule readsI)
    fix r
    assume "at_bytes r (number_bytes 1 False 0)"
    from readsD [OF reads_Uint8_d [OF u] this]
    show "codec_d (nullable inner) r = (Inr VNull, advance (length (number_bytes 1 False 0)) r)"
      by (simp add: nullable_def rbind_def)
  qed
qed (simp_all add: nullable_def size_c_def)

lemma rt_nullable_present:
  assumes "rt b inner v" and "v \<noteq> VNull"
  shows "rt b (nullable inner) v"
proof -
  from assms(1) obtain bs v' where e: "emits (\<lambda>w. codec_e inner w v) bs"
    and r: "reads (codec_d inner) bs v'" and d: "deep_eq v' v"
    and s: "b \<longrightarrow> size_c inner v = Inr (length bs)"
    by (auto simp: rt_def)
  show ?thesis
  proof (rule rtI [of _ _ "number_bytes 1 False 1 @ bs" v'])
    show "emits (\<lambda>w. codec_e (nullable inner) w v) (number_bytes 1 False 1 @ bs)"
      using emits_wseq [OF emits_Uint8_e [of 1] e] assms(2) by (simp add: nullable_def)
    have u: "unsigned_fits 1 1" by (simp add: unsigned_fits_def)
    show "reads (codec_d (nullable inner)) (number_bytes 1 False 1 @ bs) v'"
    proof (rule readsI)
      fix r
      assume "at_bytes r (number_bytes 1 False 1 @ bs)"
      then have 1: "at_bytes r (number_bytes 1 False 1)" and 2: "at_bytes (advance 1 r) bs"
        by (simp_all add: at_bytes_append)
      from readsD [OF reads_Uint8_d [OF u] 1] readsD [OF r 2]
      show "codec_d (nullable inner) r = (Inr v', advance (length (number_bytes 1 False 1 @ bs)) r)"
        by (simp add: nullable_def rbind_def)
    qed
    show "deep_eq v' v" by (rule d)
    show "size_c (nullable inner) v = Inr (length (number_bytes 1 False 1 @ bs))" if b
      using that s assms(2) by (simp add: nullable_def size_c_def sbind_def)
  qed
qed

lemma rt_nullable: "v = VNull \<or> rt b inner v \<Longrightarrow> rt b (nullable inner) v"
  using rt_nullable_absent rt_nullable_present by blast

section \<open>Round trips of the loops\<close>

lemma loop_rt:
  assumes "\<forall>x \<in> set xs. \<exists>bs y. emits (\<lambda>w. f w x) bs \<and> reads (g x) bs y \<and> Q x y
             \<and> (b \<longrightarrow> sz x = Inr (length bs))"
  shows "\<exists>bs ys. emits (e_each f xs) bs \<and> reads (d_each g xs) bs ys \<and> list_all2 Q xs ys
           \<and> (b \<longrightarrow> (\<forall>acc. sum_sizes sz xs acc = Inr (acc + length bs)))"
  using assms
proof (induction xs)
  case Nil
  have e: "emits (e_each f []) []"
    using emits_nothing by (simp add: e_each.simps [abs_def])
  have r: "reads (d_each g []) [] []"
    using reads_return [of "[]"] by (simp add: d_each.simps [abs_def])
  show ?case
  proof (intro exI [of _ "[]"] conjI)
    show "emits (e_each f []) []" by (rule e)
    show "reads (d_each g []) [] []" by (rule r)
  qed simp_all
next
  case (Cons x xs)
  from Cons.prems obtain bs1 y where e1: "emits (\<lambda>w. f w x) bs1" and r1: "reads (g x) bs1 y"
    and q1: "Q x y" and s1: "b \<longrightarrow> sz x = Inr (length bs1)"
    by auto
  from Cons.IH Cons.prems obtain bs2 ys where e2: "emits (e_each f xs) bs2"
    and r2: "reads (d_each g xs) bs2 ys" and q2: "list_all2 Q xs ys"
    and s2: "b \<longrightarrow> (\<forall>acc. sum_sizes sz xs acc = Inr (acc + length bs2))"
    by auto
  have e: "emits (e_each f (x # xs)) (bs1 @ bs2)"
    using emits_wseq [OF e1 e2] by (simp add: e_each.simps [abs_def])
  have "reads (\<lambda>r. rbind (g x r) (\<lambda>y r'. rmap (\<lambda>ys. y # ys) (d_each g xs r'))) (bs1 @ bs2) (y # ys)"
    by (rule reads_rbind [OF r1]) (rule reads_rmap [OF r2])
  then have r: "reads (d_each g (x # xs)) (bs1 @ bs2) (y # ys)"
    by (simp add: d_each.simps [abs_def])
  have s: "b \<longrightarrow> (\<forall>acc. sum_sizes sz (x # xs) acc = Inr (acc + length (bs1 @ bs2)))"
    using s1 s2 by (simp add: sbind_def add.assoc)
  show ?case
  proof (intro exI [of _ "bs1 @ bs2"] exI [of _ "y # ys"] conjI)
    show "emits (e_each f (x # xs)) (bs1 @ bs2)" by (rule e)
    show "reads (d_each g (x # xs)) (bs1 @ bs2) (y # ys)" by (rule r)
    show "list_all2 Q (x # xs) (y # ys)" using q1 q2 by simp
    show "b \<longrightarrow> (\<forall>acc. sum_sizes sz (x # xs) acc = Inr (acc + length (bs1 @ bs2)))"
      by (rule s)
  qed
qed

lemma d_times_d_each: "d_times (length xs) g = d_each (\<lambda>x. g) xs"
proof (induction xs)
  case Nil
  show ?case by (rule ext) simp
next
  case (Cons x xs)
  show ?case by (rule ext) (simp add: Cons.IH)
qed

lemma deep_eq_VArr: "list_all2 (\<lambda>x y. deep_eq y x) xs ys \<Longrightarrow> deep_eq (VArr ys) (VArr xs)"
  by (auto simp: list_all2_conv_all_nth list_all_iff in_set_zip)

lemma e_each_map: "e_each f (map h xs) = e_each (\<lambda>w x. f w (h x)) xs"
proof (induction xs)
  case Nil
  show ?case by (rule ext) simp
next
  case (Cons x xs)
  show ?case by (rule ext) (simp add: Cons.IH)
qed

lemma d_each_map: "d_each g (map h xs) = d_each (\<lambda>x. g (h x)) xs"
proof (induction xs)
  case Nil
  show ?case by (rule ext) simp
next
  case (Cons x xs)
  show ?case by (rule ext) (simp add: Cons.IH)
qed

lemma sum_sizes_map: "sum_sizes sz (map h xs) = sum_sizes (\<lambda>x. sz (h x)) xs"
proof (induction xs)
  case Nil
  show ?case by (rule ext) simp
next
  case (Cons x xs)
  show ?case by (rule ext) (simp add: Cons.IH)
qed

lemma zip_upt_nth: "zip [0..<length xs] xs = map (\<lambda>i. (i, xs ! i)) [0..<length xs]"
  by (rule nth_equalityI) simp_all

section \<open>Round trips of arrays and structs\<close>

lemma rt_array:
  assumes each: "\<forall>x \<in> set xs. rt b inner x"
    and len: "fits_u32 (length xs)"
    and mx: "case maxLength of Some m \<Rightarrow> length xs \<le> m | None \<Rightarrow> True"
  shows "rt b (array inner maxLength) (VArr xs)"
proof -
  have "\<forall>x \<in> set xs. \<exists>bs y. emits (\<lambda>w. codec_e inner w x) bs \<and> reads ((\<lambda>x. codec_d inner) x) bs y
          \<and> deep_eq y x \<and> (b \<longrightarrow> size_c inner x = Inr (length bs))"
    using each by (simp add: rt_def)
  from loop_rt [OF this] obtain bs ys where e: "emits (e_each (codec_e inner) xs) bs"
    and r: "reads (d_each (\<lambda>x. codec_d inner) xs) bs ys"
    and q: "list_all2 (\<lambda>x y. deep_eq y x) xs ys"
    and s: "b \<longrightarrow> (\<forall>acc. sum_sizes (size_c inner) xs acc = Inr (acc + length bs))"
    by blast
  let ?n = "number_bytes 4 False (int (length xs))"
  have E: "emits (\<lambda>w. wseq (Uint32_e w (int (length xs))) (e_each (codec_e inner) xs)) (?n @ bs)"
    by (rule emits_wseq [OF emits_Uint32_e e])
  have R: "reads (\<lambda>r. rbind (Uint32_d r)
                    (\<lambda>n r'. rmap VArr (d_times (nat n) (codec_d inner) r'))) (?n @ bs) (VArr ys)"
  proof (rule reads_rbind [OF reads_Uint32_d [OF unsigned_fits_length [OF len]]])
    show "reads (\<lambda>r'. rmap VArr (d_times (nat (int (length xs))) (codec_d inner) r')) bs (VArr ys)"
      using reads_rmap [OF r, of VArr] by (simp add: d_times_d_each)
  qed
  have Rm: "reads (\<lambda>r. rbind (Uint32_d r)
                    (\<lambda>n r'. if nat n > m
                       then (Inl (Error (''array len '' @ show_nat (nat n) @ '' > '' @ show_nat m)), r')
                       else rmap VArr (d_times (nat n) (codec_d inner) r'))) (?n @ bs) (VArr ys)"
    if "length xs \<le> m" for m
  proof (rule reads_rbind [OF reads_Uint32_d [OF unsigned_fits_length [OF len]]])
    show "reads (\<lambda>r'. if nat (int (length xs)) > m
                       then (Inl (Error (''array len '' @ show_nat (nat (int (length xs))) @ '' > ''
                                         @ show_nat m)), r')
                       else rmap VArr (d_times (nat (int (length xs))) (codec_d inner) r'))
            bs (VArr ys)"
      using reads_rmap [OF r, of VArr] that by (simp add: d_times_d_each)
  qed
  show ?thesis
  proof (rule rtI [of _ _ "?n @ bs" "VArr ys"])
    show "emits (\<lambda>w. codec_e (array inner maxLength) w (VArr xs)) (?n @ bs)"
      using E mx by (cases maxLength) (simp_all add: array_def)
    show "reads (codec_d (array inner maxLength)) (?n @ bs) (VArr ys)"
      using R Rm mx by (cases maxLength) (simp_all add: array_def)
    show "deep_eq (VArr ys) (VArr xs)"
      by (rule deep_eq_VArr [OF q])
    show "size_c (array inner maxLength) (VArr xs) = Inr (length (?n @ bs))" if b
      using that s mx by (cases maxLength) (simp_all add: array_def size_c_def sbind_def)
  qed
qed

lemma obj_get_decoded:
  assumes "list_all2 (\<lambda>(key, c) (k', y). k' = key \<and> deep_eq y (obj_get props key)) shape ys"
    and "distinct (map fst shape)" and "k \<in> set (map fst shape)"
  shows "deep_eq (obj_get ys k) (obj_get props k)"
  using assms
proof (induction shape ys rule: list_all2_induct)
  case Nil
  then show ?case by simp
next
  case (Cons p shape q ys)
  obtain key c where p: "p = (key, c)" by (cases p)
  obtain k' y where q: "q = (k', y)" by (cases q)
  show ?case
  proof (cases "k = key")
    case True
    with Cons.hyps(1) p q show ?thesis by (simp add: obj_get_def)
  next
    case False
    with Cons p q have "deep_eq (obj_get ys k) (obj_get props k)" by simp
    with False Cons.hyps(1) p q show ?thesis by (simp add: obj_get_def)
  qed
qed

lemma keys_decoded:
  "list_all2 (\<lambda>(key, c) (k', y). k' = key \<and> Q key y) shape ys \<Longrightarrow> map fst ys = map fst shape"
  by (induction shape ys rule: list_all2_induct) auto

lemma rt_struct:
  assumes each: "\<forall>(key, c) \<in> set shape. rt b c (obj_get props key)"
    and dist: "distinct (map fst shape)"
    and keys: "\<forall>key \<in> set (map fst props). key \<in> set (map fst shape)"
  shows "rt b (struct shape) (VObj props)"
proof -
  let ?f = "\<lambda>w' (key, c). codec_e c w' (obj_get props key)"
  let ?g = "\<lambda>(key, c) r'. rmap (Pair key) (codec_d c r')"
  let ?Q = "\<lambda>(key, c) (k', y). k' = key \<and> deep_eq y (obj_get props key)"
  let ?sz = "\<lambda>(key, c). size_c c (obj_get props key)"
  have "\<forall>x \<in> set shape. \<exists>bs y. emits (\<lambda>w. ?f w x) bs \<and> reads (?g x) bs y \<and> ?Q x y
          \<and> (b \<longrightarrow> ?sz x = Inr (length bs))"
  proof
    fix x
    assume x: "x \<in> set shape"
    obtain key c where kc: "x = (key, c)" by (cases x)
    with each x have "rt b c (obj_get props key)" by auto
    then obtain bs v' where e: "emits (\<lambda>w. codec_e c w (obj_get props key)) bs"
      and r: "reads (codec_d c) bs v'" and d: "deep_eq v' (obj_get props key)"
      and s: "b \<longrightarrow> size_c c (obj_get props key) = Inr (length bs)"
      by (auto simp: rt_def)
    have "reads (\<lambda>r'. rmap (Pair key) (codec_d c r')) bs (key, v')"
      by (rule reads_rmap [OF r])
    with e d s kc
    show "\<exists>bs y. emits (\<lambda>w. ?f w x) bs \<and> reads (?g x) bs y \<and> ?Q x y
            \<and> (b \<longrightarrow> ?sz x = Inr (length bs))"
      by (intro exI [of _ bs] exI [of _ "(key, v')"]) simp
  qed
  from loop_rt [OF this] obtain bs ys where e: "emits (e_each ?f shape) bs"
    and r: "reads (d_each ?g shape) bs ys"
    and q: "list_all2 ?Q shape ys"
    and s: "b \<longrightarrow> (\<forall>acc. sum_sizes ?sz shape acc = Inr (acc + length bs))"
    by blast
  have ky: "map fst ys = map fst shape"
    using q by (rule keys_decoded)
  have "deep_eq (obj_get ys k) (obj_get props k)" if "k \<in> set (map fst shape)" for k
    using obj_get_decoded [OF q dist that] .
  then have "\<forall>k \<in> set (map fst ys @ map fst props). deep_eq (obj_get ys k) (obj_get props k)"
    using keys ky by (simp only: set_append) blast
  then have d: "deep_eq (VObj ys) (VObj props)"
    by (simp add: list_all_iff)
  show ?thesis
  proof (rule rtI [of _ _ bs "VObj ys"])
    show "emits (\<lambda>w. codec_e (struct shape) w (VObj props)) bs"
      using e by (simp add: struct_def)
    show "reads (codec_d (struct shape)) bs (VObj ys)"
      using reads_rmap [OF r, of VObj] by (simp add: struct_def)
    show "deep_eq (VObj ys) (VObj props)" by (rule d)
    show "size_c (struct shape) (VObj props) = Inr (length bs)" if b
      using that s by (simp add: struct_def size_c_def)
  qed
qed

section \<open>Round trips of tuples, unions, validate and map\<close>

lemma rt_tuple:
  assumes len: "length xs = length shape"
    and each: "\<forall>i < length shape. rt b (shape ! i) (xs ! i)"
  shows "rt b (tuple shape) (VArr xs)"
proof -
  let ?n = "length shape"
  let ?f = "\<lambda>w i. codec_e (shape ! i) w (arr_get xs i)"
  let ?g = "\<lambda>i. codec_d (shape ! i)"
  let ?Q = "\<lambda>i y. deep_eq y (xs ! i)"
  let ?sz = "\<lambda>i. if i < length shape then size_c (shape ! i) (xs ! i) else Inl undefined_error"
  have "\<forall>i \<in> set [0..<?n]. \<exists>bs y. emits (\<lambda>w. ?f w i) bs \<and> reads (?g i) bs y \<and> ?Q i y
          \<and> (b \<longrightarrow> ?sz i = Inr (length bs))"
    using each len by (simp add: rt_def arr_get_def)
  from loop_rt [OF this] obtain bs ys where e: "emits (e_each ?f [0..<?n]) bs"
    and r: "reads (d_each ?g [0..<?n]) bs ys"
    and q: "list_all2 ?Q [0..<?n] ys"
    and s: "b \<longrightarrow> (\<forall>acc. sum_sizes ?sz [0..<?n] acc = Inr (acc + length bs))"
    by blast
  have E: "e_each (\<lambda>w' (i, c). codec_e c w' (arr_get xs i)) (zip [0..<?n] shape) = e_each ?f [0..<?n]"
    by (simp add: zip_upt_nth e_each_map)
  have "d_each codec_d (map (\<lambda>i. shape ! i) [0..<?n]) = d_each ?g [0..<?n]"
    by (rule d_each_map)
  then have D: "d_each codec_d shape = d_each ?g [0..<?n]"
    by (simp only: map_nth)
  have S: "sum_sizes (\<lambda>(i, item). if i < length shape then size_c (shape ! i) item
                                   else Inl undefined_error) (zip [0..<length xs] xs)
             = sum_sizes ?sz [0..<?n]"
    by (simp only: zip_upt_nth sum_sizes_map) (simp add: len)
  have q': "list_all2 (\<lambda>x y. deep_eq y x) xs ys"
    using q len by (simp add: list_all2_conv_all_nth)
  show ?thesis
  proof (rule rtI [of _ _ bs "VArr ys"])
    show "emits (\<lambda>w. codec_e (tuple shape) w (VArr xs)) bs"
      using e by (simp add: tuple_def E)
    show "reads (codec_d (tuple shape)) bs (VArr ys)"
      using reads_rmap [OF r, of VArr] by (simp add: tuple_def D)
    show "deep_eq (VArr ys) (VArr xs)" by (rule deep_eq_VArr [OF q'])
    show "size_c (tuple shape) (VArr xs) = Inr (length bs)" if b
      using that s by (simp add: tuple_def size_c_def S)
  qed
qed

lemma unsigned_fits_index: "i < 256 \<Longrightarrow> unsigned_fits 1 (int i)"
  by (simp add: unsigned_fits_def)

lemma rt_taggedUnion:
  assumes dist: "distinct (map fst shape)" and n: "length shape \<le> 256"
    and mem: "(tag, c) \<in> set shape" and inner: "rt b c x"
  shows "rt b (taggedUnion shape) (VArr [VStr tag, x])"
proof -
  from inner obtain bs v' where e: "emits (\<lambda>w. codec_e c w x) bs"
    and r: "reads (codec_d c) bs v'" and d: "deep_eq v' x"
    and s: "b \<longrightarrow> size_c c x = Inr (length bs)"
    by (auto simp: rt_def)
  from mem obtain i where i: "i < length shape" and si: "shape ! i = (tag, c)"
    by (auto simp: in_set_conv_nth)
  have ix: "indexOf (map fst shape) tag = Some i"
    using indexOf_distinct [OF dist, of i] i si by simp
  have mo: "map_of shape tag = Some c"
    using dist mem by simp
  have u: "unsigned_fits 1 (int i)"
    using i n by (intro unsigned_fits_index) simp
  let ?t = "number_bytes 1 False (int i)"
  show ?thesis
  proof (rule rtI [of _ _ "?t @ bs" "VArr [VStr tag, v']"])
    show "emits (\<lambda>w. codec_e (taggedUnion shape) w (VArr [VStr tag, x])) (?t @ bs)"
      using emits_wseq [OF emits_Uint8_e [of "int i"] e] by (simp add: taggedUnion_def Let_def ix mo)
    show "reads (codec_d (taggedUnion shape)) (?t @ bs) (VArr [VStr tag, v'])"
    proof (rule readsI)
      fix r0
      assume "at_bytes r0 (?t @ bs)"
      then have 1: "at_bytes r0 ?t" and 2: "at_bytes (advance 1 r0) bs"
        by (simp_all add: at_bytes_append)
      from readsD [OF reads_Uint8_d [OF u] 1] readsD [OF reads_rmap [OF r] 2] i si mo
      show "codec_d (taggedUnion shape) r0 = (Inr (VArr [VStr tag, v']), advance (length (?t @ bs)) r0)"
        by (simp add: taggedUnion_def rbind_def Let_def)
    qed
    show "deep_eq (VArr [VStr tag, v']) (VArr [VStr tag, x])"
      using d by simp
    show "size_c (taggedUnion shape) (VArr [VStr tag, x]) = Inr (length (?t @ bs))" if b
      using that s by (simp add: taggedUnion_def Let_def size_c_def sbind_def mo)
  qed
qed

lemma rt_discriminatedUnion:
  assumes n: "length schemas \<le> 256" and i: "i < length schemas"
    and ix: "indexOf_strict (map (\<lambda>s. literal_at s tag) schemas) (obj_get props tag) = Some i"
    and inner: "rt b (schemas ! i) (VObj props)"
  shows "rt b (discriminatedUnion tag schemas) (VObj props)"
proof -
  from inner obtain bs v' where e: "emits (\<lambda>w. codec_e (schemas ! i) w (VObj props)) bs"
    and r: "reads (codec_d (schemas ! i)) bs v'" and d: "deep_eq v' (VObj props)"
    and s: "b \<longrightarrow> size_c (schemas ! i) (VObj props) = Inr (length bs)"
    by (auto simp: rt_def)
  have u: "unsigned_fits 1 (int i)"
    using i n by (intro unsigned_fits_index) simp
  let ?t = "number_bytes 1 False (int i)"
  show ?thesis
  proof (rule rtI [of _ _ "?t @ bs" v'])
    show "emits (\<lambda>w. codec_e (discriminatedUnion tag schemas) w (VObj props)) (?t @ bs)"
      using emits_wseq [OF emits_Uint8_e [of "int i"] e] by (simp add: discriminatedUnion_def Let_def ix)
    show "reads (codec_d (discriminatedUnion tag schemas)) (?t @ bs) v'"
    proof (rule readsI)
      fix r0
      assume "at_bytes r0 (?t @ bs)"
      then have 1: "at_bytes r0 ?t" and 2: "at_bytes (advance 1 r0) bs"
        by (simp_all add: at_bytes_append)
      from readsD [OF reads_Uint8_d [OF u] 1] readsD [OF r 2] i
      show "codec_d (discriminatedUnion tag schemas) r0 = (Inr v', advance (length (?t @ bs)) r0)"
        by (simp add: discriminatedUnion_def rbind_def Let_def)
    qed
    show "deep_eq v' (VObj props)" by (rule d)
    show "size_c (discriminatedUnion tag schemas) (VObj props) = Inr (length (?t @ bs))" if b
      using that s by (simp add: discriminatedUnion_def Let_def size_c_def sbind_def ix)
  qed
qed

lemma rt_validate:
  assumes inner: "rt b c v" and pre: "run_check pre v = None"
    and post: "case encode c v of
                 Inr bs \<Rightarrow> (case decode c bs of Inr v' \<Rightarrow> run_check post v' = None | Inl x \<Rightarrow> False)
               | Inl x \<Rightarrow> False"
  shows "rt b (validate c pre post) v"
proof -
  from inner obtain bs v' where e: "emits (\<lambda>w. codec_e c w v) bs"
    and r: "reads (codec_d c) bs v'" and d: "deep_eq v' v"
    and s: "b \<longrightarrow> size_c c v = Inr (length bs)"
    by (auto simp: rt_def)
  have p: "run_check post v' = None"
    using post by (simp add: emits_encode [OF e] reads_decode(1) [OF r])
  show ?thesis
  proof (rule rtI [of _ _ bs v'])
    show "emits (\<lambda>w. codec_e (validate c pre post) w v) bs"
      using e pre by (simp add: validate_def run_check_def)
    show "reads (codec_d (validate c pre post)) bs v'"
    proof (rule readsI)
      fix r0
      assume "at_bytes r0 bs"
      from readsD [OF r this] p
      show "codec_d (validate c pre post) r0 = (Inr v', advance (length bs) r0)"
        by (simp add: validate_def rbind_def run_check_def)
    qed
    show "deep_eq v' v" by (rule d)
    show "size_c (validate c pre post) v = Inr (length bs)" if b
      using that s by (simp add: validate_def size_c_def)
  qed
qed

lemma rt_map_c:
  assumes enc: "enc v = Inr u" and inner: "rt b' c u"
    and dec: "case encode c u of
                Inr bs \<Rightarrow> (case decode c bs of
                             Inr u' \<Rightarrow> (case dec u' of Inr v' \<Rightarrow> deep_eq v' v | Inl x \<Rightarrow> False)
                           | Inl x \<Rightarrow> False)
              | Inl x \<Rightarrow> False"
    and sz: "b \<Longrightarrow> b' \<and> (\<exists>n. codec_s c = FixedSize n)"
  shows "rt b (map_c c enc dec) v"
proof -
  from inner obtain bs u' where e: "emits (\<lambda>w. codec_e c w u) bs"
    and r: "reads (codec_d c) bs u'"
    and s: "b' \<longrightarrow> size_c c u = Inr (length bs)"
    by (auto simp: rt_def)
  from dec obtain v' where dv: "dec u' = Inr v'" and d: "deep_eq v' v"
    by (auto simp: emits_encode [OF e] reads_decode(1) [OF r] split: sum.splits)
  show ?thesis
  proof (rule rtI [of _ _ bs v'])
    show "emits (\<lambda>w. codec_e (map_c c enc dec) w v) bs"
      using e enc by (simp add: map_c_def)
    show "reads (codec_d (map_c c enc dec)) bs v'"
    proof (rule readsI)
      fix r0
      assume "at_bytes r0 bs"
      from readsD [OF r this] dv
      show "codec_d (map_c c enc dec) r0 = (Inr v', advance (length bs) r0)"
        by (simp add: map_c_def rbind_def)
    qed
    show "deep_eq v' v" by (rule d)
    show "size_c (map_c c enc dec) v = Inr (length bs)" if b
      using sz [OF that] s by (auto simp: map_c_def size_c_def)
  qed
qed

section \<open>Round trip of the envelope\<close>

lemma at_bytes_reader_0: "at_bytes (reader bs 0) bs"
  by (simp add: at_bytes_def slice_def rpos_reader rbuf_reader)

lemma unsigned_fits_HEADER: "unsigned_fits 4 HEADER"
  by (simp add: unsigned_fits_def HEADER_def)

lemma unsigned_fits_VERSION: "unsigned_fits 2 VERSION"
  by (simp add: unsigned_fits_def VERSION_def)

lemma rt_envelope:
  assumes inner: "rt b inner v"
    and fits: "case encode inner v of Inr payload \<Rightarrow> fits_u32 (length payload) | Inl x \<Rightarrow> False"
  shows "rt b (envelope inner) v"
proof -
  from inner obtain bs v' where e: "emits (\<lambda>w. codec_e inner w v) bs"
    and r: "reads (codec_d inner) bs v'" and d: "deep_eq v' v"
    and s: "b \<longrightarrow> size_c inner v = Inr (length bs)"
    by (auto simp: rt_def)
  have enc: "encode inner v = Inr bs" by (rule emits_encode [OF e])
  with fits have f: "fits_u32 (length bs)" by simp
  let ?h = "number_bytes 4 False HEADER"
  let ?v = "number_bytes 2 False VERSION"
  let ?l = "number_bytes 4 False (int (length bs))"
  have inner_d: "fst (codec_d inner (reader bs 0)) = Inr v'"
    using readsD [OF r at_bytes_reader_0] by simp
  show ?thesis
  proof (rule rtI [of _ _ "?h @ ?v @ ?l @ bs" v'])
    have "emits (\<lambda>w. wseq (Uint32_e w HEADER)
                  (\<lambda>w1. wseq (Uint16_e w1 VERSION)
                     (\<lambda>w2. wseq (Uint32_e w2 (int (length bs)))
                              (writer_write (length bs) (set_block bs)))))
            (?h @ ?v @ ?l @ bs)"
      by (intro emits_wseq emits_Uint32_e emits_Uint16_e emits_write_exact)
    then show "emits (\<lambda>w. codec_e (envelope inner) w v) (?h @ ?v @ ?l @ bs)"
      by (simp add: envelope_def enc)
    have "reads (\<lambda>r. rbind (Uint32_d r)
               (\<lambda>h r1. if h \<noteq> HEADER then (Inl (Error ''Missing header''), r1)
                        else rbind (Uint16_d r1)
                          (\<lambda>ver r2. if ver \<noteq> 1
                                     then (Inl (Error (''unsupported version ''
                                                       @ show_nat (nat ver))), r2)
                                     else rbind (Uint32_d r2)
                                       (\<lambda>n r3. rbind (reader_read (nat n)
                                                         (\<lambda>b o1 e1. Inr (slice b o1 e1)) r3)
                                                  (\<lambda>payload r4.
                                                     (fst (codec_d inner (reader payload 0)),
                                                      r4))))))
            (?h @ ?v @ ?l @ bs) v'"
    proof (rule reads_rbind [OF reads_Uint32_d [OF unsigned_fits_HEADER]])
      have "reads (\<lambda>r1. rbind (Uint16_d r1)
                          (\<lambda>ver r2. if ver \<noteq> 1
                                     then (Inl (Error (''unsupported version ''
                                                       @ show_nat (nat ver))), r2)
                                     else rbind (Uint32_d r2)
                                       (\<lambda>n r3. rbind (reader_read (nat n)
                                                         (\<lambda>b o1 e1. Inr (slice b o1 e1)) r3)
                                                  (\<lambda>payload r4.
                                                     (fst (codec_d inner (reader payload 0)),
                                                      r4)))))
              (?v @ ?l @ bs) v'"
      proof (rule reads_rbind [OF reads_Uint16_d [OF unsigned_fits_VERSION]])
        have "reads (\<lambda>r2. rbind (Uint32_d r2)
                                       (\<lambda>n r3. rbind (reader_read (nat n)
                                                         (\<lambda>b o1 e1. Inr (slice b o1 e1)) r3)
                                                  (\<lambda>payload r4.
                                                     (fst (codec_d inner (reader payload 0)),
                                                      r4))))
                (?l @ bs) v'"
        proof (rule reads_rbind [OF reads_Uint32_d [OF unsigned_fits_length [OF f]]])
          have "reads (\<lambda>r3. rbind (reader_read (length bs) (\<lambda>b o1 e1. Inr (slice b o1 e1)) r3)
                               (\<lambda>payload r4. (fst (codec_d inner (reader payload 0)), r4)))
                  (bs @ []) v'"
          proof (rule reads_rbind)
            show "reads (reader_read (length bs) (\<lambda>b o1 e1. Inr (slice b o1 e1))) bs bs"
              by (rule reads_read) simp_all
            show "reads (\<lambda>r4. (fst (codec_d inner (reader bs 0)), r4)) [] v'"
              by (simp add: inner_d reads_return)
          qed
          then show "reads (\<lambda>r3. rbind (reader_read (nat (int (length bs)))
                                    (\<lambda>b o1 e1. Inr (slice b o1 e1)) r3)
                               (\<lambda>payload r4. (fst (codec_d inner (reader payload 0)), r4)))
                  bs v'"
            by simp
        qed
        then show "reads (\<lambda>r2. if VERSION \<noteq> 1
                                     then (Inl (Error (''unsupported version ''
                                                       @ show_nat (nat VERSION))), r2)
                                     else rbind (Uint32_d r2)
                                       (\<lambda>n r3. rbind (reader_read (nat n)
                                                         (\<lambda>b o1 e1. Inr (slice b o1 e1)) r3)
                                                  (\<lambda>payload r4.
                                                     (fst (codec_d inner (reader payload 0)),
                                                      r4))))
                (?l @ bs) v'"
          by (simp add: VERSION_def)
      qed
      then show "reads (\<lambda>r1. if HEADER \<noteq> HEADER then (Inl (Error ''Missing header''), r1)
                        else rbind (Uint16_d r1)
                          (\<lambda>ver r2. if ver \<noteq> 1
                                     then (Inl (Error (''unsupported version ''
                                                       @ show_nat (nat ver))), r2)
                                     else rbind (Uint32_d r2)
                                       (\<lambda>n r3. rbind (reader_read (nat n)
                                                         (\<lambda>b o1 e1. Inr (slice b o1 e1)) r3)
                                                  (\<lambda>payload r4.
                                                     (fst (codec_d inner (reader payload 0)),
                                                      r4)))))
              (?v @ ?l @ bs) v'"
        by simp
    qed
    then show "reads (codec_d (envelope inner)) (?h @ ?v @ ?l @ bs) v'"
      by (simp add: envelope_def)
    show "deep_eq v' v" by (rule d)
    show "size_c (envelope inner) v = Inr (length (?h @ ?v @ ?l @ bs))" if b
      using that s by (simp add: envelope_def size_c_def sbind_def)
  qed
qed

section \<open>Every encodable value round-trips\<close>

lemma encodable_rt: "encodable t v \<Longrightarrow> rt (sized t) (build t) v"
proof (induction t arbitrary: v)
  case XUint8
  then show ?case by (cases v) (simp_all add: rt_Uint8)
next
  case XInt8
  then show ?case by (cases v) (simp_all add: rt_Int8)
next
  case (XUint16 en)
  then show ?case by (cases v) (simp_all add: uint16_def rt_numCodec_unsigned)
next
  case (XInt16 en)
  then show ?case by (cases v) (simp_all add: int16_def rt_numCodec_signed)
next
  case (XUint32 en)
  then show ?case by (cases v) (simp_all add: uint32_def rt_numCodec_unsigned)
next
  case (XInt32 en)
  then show ?case by (cases v) (simp_all add: int32_def rt_numCodec_signed)
next
  case (XBigUint64 en)
  then show ?case by (cases v) (simp_all add: bigUint64_def rt_bigNumCodec_unsigned)
next
  case (XBigInt64 en)
  then show ?case by (cases v) (simp_all add: bigInt64_def rt_bigNumCodec_signed)
next
  case XBool
  then show ?case by (cases v) (simp_all add: rt_Bool)
next
  case XUtf8
  then show ?case by (cases v) (simp_all add: rt_Utf8)
next
  case (XUtf8With p)
  then show ?case
    by (cases v; cases p) (simp_all add: rt_utf8_max rt_utf8_fixed)
next
  case (XJson stringify parse)
  then show ?case
    by (auto split: sum.splits intro: rt_json)
next
  case (XBytes p)
  then show ?case
    by (cases v; cases p) (auto simp: rt_Bytes rt_bytes_max rt_bytes_fixed bytes_def [of BytesNoParams])
next
  case (XLiteral x)
  then show ?case by (simp add: rt_literal)
next
  case (XOptional t)
  then show ?case by (auto intro: rt_optional)
next
  case (XNullable t)
  then show ?case by (auto intro: rt_nullable)
next
  case (XArray t maxLength)
  from XArray.prems obtain xs where v: "v = VArr xs" by (cases v) simp_all
  from XArray.prems v have all: "\<forall>x \<in> set xs. encodable t x"
    and len: "fits_u32 (length xs)"
    and mx: "case maxLength of Some m \<Rightarrow> length xs \<le> m | None \<Rightarrow> True"
    by (simp_all add: list_all_iff)
  from all XArray.IH have "\<forall>x \<in> set xs. rt (sized t) (build t) x" by blast
  from rt_array [OF this len mx] v show ?case by simp
next
  case (XStruct shape)
  from XStruct.prems obtain props where v: "v = VObj props" by (cases v) simp_all
  let ?b = "list_all (\<lambda>(key, t). sized t) shape"
  from XStruct.prems v have dist: "distinct (map fst shape)"
    and keys: "\<forall>key \<in> set (map fst props). key \<in> set (map fst shape)"
    and all: "\<forall>(key, t) \<in> set shape. encodable t (obj_get props key)"
    by (simp_all add: list_all_iff)
  have "\<forall>(key, c) \<in> set (map (\<lambda>(key, t). (key, build t)) shape). rt ?b c (obj_get props key)"
  proof (clarsimp)
    fix key t
    assume m: "(key, t) \<in> set shape"
    with all have "encodable t (obj_get props key)" by blast
    with XStruct.IH [of "(key, t)" t] m have r: "rt (sized t) (build t) (obj_get props key)"
      by simp
    show "rt ?b (build t) (obj_get props key)"
    proof (cases ?b)
      case True
      with m have "sized t" by (auto simp: list_all_iff)
      with r True show ?thesis by simp
    next
      case False
      with rt_weaken [OF r] show ?thesis by simp
    qed
  qed
  from rt_struct [OF this, of ] dist keys v show ?case
    by (simp add: comp_def case_prod_beta)
next
  case (XTuple shape)
  from XTuple.prems obtain xs where v: "v = VArr xs" by (cases v) simp_all
  let ?b = "list_all sized shape"
  from XTuple.prems v have len: "length xs = length shape"
    and all: "\<forall>(i, t) \<in> set (zip [0..<length shape] shape). encodable t (arr_get xs i)"
    by (simp_all add: list_all_iff)
  have "\<forall>i < length (map build shape). rt ?b (map build shape ! i) (xs ! i)"
  proof (intro allI impI)
    fix i
    assume "i < length (map build shape)"
    then have i: "i < length shape" by simp
    then have "(i, shape ! i) \<in> set (zip [0..<length shape] shape)"
      by (simp add: zip_upt_nth)
    with all have "encodable (shape ! i) (arr_get xs i)" by blast
    with i len have "encodable (shape ! i) (xs ! i)" by (simp add: arr_get_def)
    with XTuple.IH [of "shape ! i"] i have r: "rt (sized (shape ! i)) (build (shape ! i)) (xs ! i)"
      by simp
    have "rt ?b (build (shape ! i)) (xs ! i)"
    proof (cases ?b)
      case True
      with i have "sized (shape ! i)" by (auto simp: list_all_iff)
      with r True show ?thesis by simp
    next
      case False
      with rt_weaken [OF r] show ?thesis by simp
    qed
    with i show "rt ?b (map build shape ! i) (xs ! i)" by simp
  qed
  from rt_tuple [OF _ this] len v show ?case by simp
next
  case (XTaggedUnion shape)
  from XTaggedUnion.prems obtain tag x where tg: "tagged v = Some (tag, x)"
    by (auto split: option.splits)
  then have v: "v = VArr [VStr tag, x]"
    by (induction v rule: tagged.induct) simp_all
  let ?b = "list_all (\<lambda>(key, t). sized t) shape"
  from XTaggedUnion.prems tg have dist: "distinct (map fst shape)" and n: "length shape \<le> 256"
    and ex: "\<exists>(key, t) \<in> set shape. key = tag \<and> encodable t x"
    by (simp_all add: list_ex_iff)
  from ex obtain t where m: "(tag, t) \<in> set shape" and en: "encodable t x" by auto
  from XTaggedUnion.IH [of "(tag, t)" t] m en have r: "rt (sized t) (build t) x" by simp
  have r': "rt ?b (build t) x"
  proof (cases ?b)
    case True
    with m have "sized t" by (auto simp: list_all_iff)
    with r True show ?thesis by simp
  next
    case False
    with rt_weaken [OF r] show ?thesis by simp
  qed
  let ?shape = "map (\<lambda>(key, t). (key, build t)) shape"
  have d': "distinct (map fst ?shape)" using dist by (simp add: comp_def case_prod_beta)
  have n': "length ?shape \<le> 256" using n by simp
  have m': "(tag, build t) \<in> set ?shape" using m by force
  from rt_taggedUnion [OF d' n' m' r'] v show ?case by simp
next
  case (XDiscriminatedUnion tag schemas)
  from XDiscriminatedUnion.prems obtain props where v: "v = VObj props" by (cases v) simp_all
  let ?b = "list_all sized schemas"
  from XDiscriminatedUnion.prems v have n: "length schemas \<le> 256"
    and ex: "\<exists>(i, t) \<in> set (zip [0..<length schemas] schemas).
               indexOf_strict (map (\<lambda>s. literal_at (build s) tag) schemas) (obj_get props tag) = Some i
               \<and> encodable t v"
    by (simp_all add: list_ex_iff)
  from ex obtain i t where m: "(i, t) \<in> set (zip [0..<length schemas] schemas)"
    and ix: "indexOf_strict (map (\<lambda>s. literal_at (build s) tag) schemas) (obj_get props tag) = Some i"
    and en: "encodable t v" by auto
  from m have i: "i < length schemas" and t: "t = schemas ! i"
    by (auto simp: in_set_zip)
  from XDiscriminatedUnion.IH [of t] en i t have r: "rt (sized t) (build t) v" by simp
  have r': "rt ?b (map build schemas ! i) (VObj props)"
  proof (cases ?b)
    case True
    with i t have "sized t" by (auto simp: list_all_iff)
    with r True i t v show ?thesis by simp
  next
    case False
    with rt_weaken [OF r] i t v show ?thesis by simp
  qed
  have ix': "indexOf_strict (map (\<lambda>s. literal_at s tag) (map build schemas)) (obj_get props tag) = Some i"
    using ix by (simp add: comp_def)
  have n': "length (map build schemas) \<le> 256" and i': "i < length (map build schemas)"
    using n i by simp_all
  from rt_discriminatedUnion [OF n' i' ix' r'] v show ?case by simp
next
  case (XEnvelope t)
  then show ?case by (auto intro: rt_envelope)
next
  case (XValidate t pre post)
  then show ?case by (auto intro: rt_validate)
next
  case (XMap t enc dec)
  from XMap.prems obtain u where u: "enc v = Inr u" by (auto split: sum.splits)
  with XMap.prems have en: "encodable t u"
    and dec: "case encode (build t) u of
                Inr bs \<Rightarrow> (case decode (build t) bs of
                             Inr u' \<Rightarrow> (case dec u' of Inr v' \<Rightarrow> deep_eq v' v | Inl x \<Rightarrow> False)
                           | Inl x \<Rightarrow> False)
              | Inl x \<Rightarrow> False"
    by simp_all
  from XMap.IH [OF en] have r: "rt (sized t) (build t) u" .
  have "rt (sized (XMap t enc dec)) (map_c (build t) enc dec) v"
    by (rule rt_map_c [where enc = enc and dec = dec and u = u and b' = "sized t", OF u r dec])
      (auto split: size_desc.splits)
  then show ?case by simp
qed

section \<open>The round-trip law\<close>





text \<open>
  Values that encode without an error and come back changed, besides the fixed-width string
  of the counterexample below: a number outside the range of its width is stored modulo
  \<open>2 ^ width\<close>, the decoder of strings drops a leading byte order mark, and a byte array
  shorter than its fixed size comes back padded with zeros.
\<close>

lemma round_trip_limits:
  "encode (build XUint8) (VNum 256) = Inr [0]"
  "decode (build XUint8) [0] = Inr (VNum 0)"
  "encode (build XUtf8) (VStr [CHR 0xEF, CHR 0xBB, CHR 0xBF, CHR ''a''])
     = Inr [0, 0, 0, 4, 0xEF, 0xBB, 0xBF, 97]"
  "decode (build XUtf8) [0, 0, 0, 4, 0xEF, 0xBB, 0xBF, 97] = Inr (VStr ''a'')"
  "encode (build (XBytes (BytesFixed 2))) (VBytes [1]) = Inr [1, 0]"
  "decode (build (XBytes (BytesFixed 2))) [1, 0] = Inr (VBytes [1, 0])"
  by code_simp+




section \<open>The size descriptor and the bytes written\<close>

text \<open>
  In every codec in which \<open>map\<close> wraps fixed-size codecs only (\<open>sized t\<close>), the size
  descriptor gives, for every value the codec can hold, the number of bytes \<open>encode\<close>
  returns.
\<close>

theorem size_agrees_with_encode:
  "sized t \<Longrightarrow> encodable t v \<Longrightarrow>
     \<exists>bs. encode (build t) v = Inr bs \<and> size_c (build t) v = Inr (length bs)"
proof -
  assume s: "sized t" and "encodable t v"
  then have "rt (sized t) (build t) v" by (intro encodable_rt)
  with s obtain bs where e: "emits (\<lambda>w. codec_e (build t) w v) bs"
    and z: "size_c (build t) v = Inr (length bs)"
    by (auto simp: rt_def)
  from emits_encode [OF e] z show ?thesis by blast
qed

text \<open>
  C2 fails in the code of \<open>map\<close>. The codec \<open>map\<close> returns is \<open>{...codec, e, d}\<close>: its
  size descriptor is the wrapped codec's, and is applied to the value before the
  projection, while the encoder writes the projected value. For
  \<open>map(Utf8, (s) => 'id:' + s, (s) => s.slice(3))\<close> and the value \<open>ab\<close> the size is
  \<open>2 + 4 = 6\<close>, and \<open>encode\<close> returns the 9 bytes of the length prefix and \<open>id:ab\<close>,
  which decode to \<open>ab\<close>.
\<close>

theorem map_size_ignores_projection:
  "size_c (map_c c enc dec) v = size_c c v
   \<and> size_c (map_c Utf8 tag_enc tag_dec) (VStr ''ab'') = Inr 6
   \<and> encode (map_c Utf8 tag_enc tag_dec) (VStr ''ab'') = Inr [0, 0, 0, 5, 105, 100, 58, 97, 98]
   \<and> decode (map_c Utf8 tag_enc tag_dec) [0, 0, 0, 5, 105, 100, 58, 97, 98] = Inr (VStr ''ab'')"
proof -
  have "size_c (map_c c enc dec) v = size_c c v"
    by (simp add: map_c_def size_c_def)
  moreover have "size_c (map_c Utf8 tag_enc tag_dec) (VStr ''ab'') = Inr 6"
    by code_simp
  moreover have "encode (map_c Utf8 tag_enc tag_dec) (VStr ''ab'')
                   = Inr [0, 0, 0, 5, 105, 100, 58, 97, 98]"
    by code_simp
  moreover have "decode (map_c Utf8 tag_enc tag_dec) [0, 0, 0, 5, 105, 100, 58, 97, 98]
                   = Inr (VStr ''ab'')"
    by code_simp
  ultimately show ?thesis by blast
qed

end
